theory Spec2Isabelle
  imports Complex_Main
begin

section \<open>Text: Python strings as lists of Unicode code points\<close>

text \<open>
  A Python \<^verbatim>\<open>str\<close> is a sequence of Unicode code points, and every function of the
  parsers counts, compares and classifies code points. A character is therefore the
  natural number of its code point and a string is a list of them.
\<close>

type_synonym uchar = nat
type_synonym ustring = "nat list"

definition ascii :: "string \<Rightarrow> ustring" where
  "ascii s = map of_char s"

text \<open>\<^verbatim>\<open>str(n)\<close> for a non-negative integer, as the f-strings render \<^verbatim>\<open>{i+1}\<close>.\<close>

fun str_nat :: "nat \<Rightarrow> ustring" where
  "str_nat n = (if n < 10 then [48 + n] else str_nat (n div 10) @ [48 + n mod 10])"

declare str_nat.simps [simp del]

section \<open>JSON values as \<^verbatim>\<open>json.load\<close> returns them\<close>

text \<open>
  \<^verbatim>\<open>json.load\<close> yields \<^verbatim>\<open>None\<close>, \<^verbatim>\<open>bool\<close>, \<^verbatim>\<open>int\<close>, \<^verbatim>\<open>float\<close>, \<^verbatim>\<open>str\<close>,
  \<^verbatim>\<open>list\<close> and \<^verbatim>\<open>dict\<close> values. A dictionary is an association list in insertion
  order, read with \<^const>\<open>map_of\<close>.
\<close>

datatype json =
    JNull
  | JBool bool
  | JInt int
  | JFloat real
  | JStr ustring
  | JList "json list"
  | JDict "(ustring \<times> json) list"

text \<open>\<^verbatim>\<open>isinstance(x, dict)\<close> and \<^verbatim>\<open>isinstance(x, list)\<close>.\<close>

fun is_dict :: "json \<Rightarrow> bool" where
  "is_dict (JDict d) = True"
| "is_dict j = False"

fun is_list :: "json \<Rightarrow> bool" where
  "is_list (JList xs) = True"
| "is_list j = False"

text \<open>\<^verbatim>\<open>d.get(key, default)\<close>.\<close>

definition dict_get :: "(ustring \<times> json) list \<Rightarrow> ustring \<Rightarrow> json \<Rightarrow> json" where
  "dict_get d k dflt = (case map_of d k of Some v \<Rightarrow> v | None \<Rightarrow> dflt)"

text \<open>\<^verbatim>\<open>item.get(key, default)\<close> on a value known to be a \<^verbatim>\<open>dict\<close>.\<close>

fun item_get :: "json \<Rightarrow> ustring \<Rightarrow> json \<Rightarrow> json" where
  "item_get (JDict d) k dflt = dict_get d k dflt"
| "item_get j k dflt = dflt"

section \<open>Result aggregator: \<^verbatim>\<open>JsonProcessor._process_data\<close>\<close>

text \<open>
  The function appends to \<^verbatim>\<open>processed_data\<close> and prints one line per kept element
  and per skipped top-level element. The printed lines are the diagnostic notes; the
  state of the loop is the pair of the output list and the notes printed so far.
\<close>

datatype diag =
    NoteObject nat json
  | NoteSubObject json
  | NoteSkipped json

text \<open>
  \<open>NoteObject (i + 1) label\<close> is the line printed for a kept top-level mapping,
  \<open>NoteSubObject label\<close> the line printed for a kept member of a nested sequence, and
  \<open>NoteSkipped item\<close> the line printed for a skipped top-level element (the source
  prints the type of the item). The label is \<^verbatim>\<open>item.get('article_number', default)\<close>.
\<close>

text \<open>The default label of a nested member, a four-character literal of the source.\<close>

definition unknown_article :: ustring where
  "unknown_article = [26410, 30693, 26465, 27454]"

definition article_number_key :: ustring where
  "article_number_key = ascii ''article_number''"

text \<open>The default label of a top-level mapping: U+7B2C, \<^verbatim>\<open>str(i+1)\<close>, U+6761.\<close>

definition default_label :: "nat \<Rightarrow> ustring" where
  "default_label i = [31532] @ str_nat (i + 1) @ [26465]"

text \<open>The inner loop \<^verbatim>\<open>for sub_item in item\<close>.\<close>

fun process_sub_items :: "json list \<Rightarrow> json list \<times> diag list \<Rightarrow> json list \<times> diag list" where
  "process_sub_items [] st = st"
| "process_sub_items (sub_item # rest) (processed_data, printed) =
     (if is_dict sub_item
      then process_sub_items rest
             (processed_data @ [sub_item],
              printed @ [NoteSubObject (item_get sub_item article_number_key (JStr unknown_article))])
      else process_sub_items rest (processed_data, printed))"

text \<open>The outer loop \<^verbatim>\<open>for i, item in enumerate(data)\<close>, from index \<open>i\<close>.\<close>

fun process_items :: "nat \<Rightarrow> json list \<Rightarrow> json list \<times> diag list \<Rightarrow> json list \<times> diag list" where
  "process_items i [] st = st"
| "process_items i (item # rest) (processed_data, printed) =
     (if is_dict item
      then process_items (Suc i) rest
             (processed_data @ [item],
              printed @ [NoteObject (i + 1) (item_get item article_number_key (JStr (default_label i)))])
      else (case item of
              JList sub_items \<Rightarrow>
                process_items (Suc i) rest (process_sub_items sub_items (processed_data, printed))
            | _ \<Rightarrow> process_items (Suc i) rest (processed_data, printed @ [NoteSkipped item])))"

definition process_data :: "json list \<Rightarrow> json list \<times> diag list" where
  "process_data data = process_items 0 data ([], [])"

text \<open>
  The flatten as the specification words it: a mapping is kept, a sequence is replaced
  by its members, anything else is dropped.
\<close>

fun spec_expand :: "json \<Rightarrow> json list" where
  "spec_expand (JDict d) = [JDict d]"
| "spec_expand (JList xs) = xs"
| "spec_expand j = []"

definition spec_flatten :: "json list \<Rightarrow> json list" where
  "spec_flatten data = concat (map spec_expand data)"

text \<open>What one top-level element contributes to the output of the code.\<close>

fun kept_of :: "json \<Rightarrow> json list" where
  "kept_of (JDict d) = [JDict d]"
| "kept_of (JList xs) = filter is_dict xs"
| "kept_of j = []"

text \<open>What one top-level element at index \<open>i\<close> contributes to the notes.\<close>

fun notes_of :: "nat \<Rightarrow> json \<Rightarrow> diag list" where
  "notes_of i (JDict d) = [NoteObject (i + 1) (dict_get d article_number_key (JStr (default_label i)))]"
| "notes_of i (JList xs) =
     map (\<lambda>s. NoteSubObject (item_get s article_number_key (JStr unknown_article))) (filter is_dict xs)"
| "notes_of i j = [NoteSkipped j]"

fun notes_from :: "nat \<Rightarrow> json list \<Rightarrow> diag list" where
  "notes_from i [] = []"
| "notes_from i (item # rest) = notes_of i item @ notes_from (Suc i) rest"

fun is_skip_note :: "diag \<Rightarrow> bool" where
  "is_skip_note (NoteSkipped j) = True"
| "is_skip_note n = False"

section \<open>Python exceptions and built-ins used by the code\<close>

text \<open>
  The exceptions the modelled code can raise or has to tell apart. Every one of them is
  a subclass of \<^verbatim>\<open>Exception\<close>; interrupts (\<^verbatim>\<open>KeyboardInterrupt\<close>) are outside the model.
\<close>

datatype py_exn = TypeError | ValueError | UnboundLocalError | JSONDecodeError | OtherException

text \<open>Truth value of a JSON value, as \<^verbatim>\<open>if x:\<close> and \<^verbatim>\<open>bool(x)\<close> take it.\<close>

fun truthy :: "json \<Rightarrow> bool" where
  "truthy JNull = False"
| "truthy (JBool b) = b"
| "truthy (JInt n) = (n \<noteq> 0)"
| "truthy (JFloat r) = (r \<noteq> 0)"
| "truthy (JStr s) = (s \<noteq> [])"
| "truthy (JList xs) = (xs \<noteq> [])"
| "truthy (JDict d) = (d \<noteq> [])"

text \<open>\<^verbatim>\<open>len(x)\<close>: defined on strings, lists and dictionaries, a \<^verbatim>\<open>TypeError\<close> otherwise.\<close>

fun py_len :: "json \<Rightarrow> py_exn + nat" where
  "py_len (JStr s) = Inr (length s)"
| "py_len (JList xs) = Inr (length xs)"
| "py_len (JDict d) = Inr (length (remdups (map fst d)))"
| "py_len j = Inl TypeError"

section \<open>Validation statistics: \<^verbatim>\<open>JsonProcessor.extract_articles_info\<close>\<close>

definition error_key :: ustring where "error_key = ascii ''error''"
definition content_key :: ustring where "content_key = ascii ''content''"
definition summary_key :: ustring where "summary_key = ascii ''summary''"
definition keywords_key :: ustring where "keywords_key = ascii ''keywords''"

text \<open>The default of \<^verbatim>\<open>item.get("error", ...)\<close>, a four-character literal of the source.\<close>

definition unknown_error :: ustring where
  "unknown_error = [26410, 30693, 38169, 35823]"

record sample =
  article_number :: json
  content_length :: nat
  has_summary :: bool
  keywords_count :: nat

record stats =
  total_articles :: nat
  valid_articles :: nat
  articles_with_content :: nat
  articles_with_summary :: nat
  articles_with_keywords :: nat
  sample_articles :: "sample list"
  error_articles :: "(nat \<times> json) list"

text \<open>
  The report: the statistics, or the dictionary of the \<^verbatim>\<open>except Exception\<close> handler,
  which holds an error message and the two counts \<^verbatim>\<open>total_articles\<close> and
  \<^verbatim>\<open>valid_articles\<close>, both zero.
\<close>

datatype report = StatsReport stats | ErrorReport py_exn

fun report_total :: "report \<Rightarrow> nat" where
  "report_total (StatsReport st) = total_articles st"
| "report_total (ErrorReport e) = 0"

fun report_valid :: "report \<Rightarrow> nat" where
  "report_valid (StatsReport st) = valid_articles st"
| "report_valid (ErrorReport e) = 0"

text \<open>\<^verbatim>\<open>"error" not in item\<close> for a dictionary.\<close>

definition lacks_error :: "(ustring \<times> json) list \<Rightarrow> bool" where
  "lacks_error d = (map_of d error_key = None)"

text \<open>
  The sample entry built for a valid record at index \<open>i\<close>. Both \<^verbatim>\<open>len\<close> calls raise
  a \<^verbatim>\<open>TypeError\<close> on a value that has no length.
\<close>

definition make_sample :: "nat \<Rightarrow> (ustring \<times> json) list \<Rightarrow> py_exn + sample" where
  "make_sample i d =
     (case py_len (dict_get d content_key (JStr [])) of
        Inl e \<Rightarrow> Inl e
      | Inr cl \<Rightarrow>
          (case py_len (dict_get d keywords_key (JList [])) of
             Inl e \<Rightarrow> Inl e
           | Inr kc \<Rightarrow>
               Inr \<lparr>article_number = dict_get d article_number_key (JStr (default_label i)),
                    content_length = cl,
                    has_summary = truthy (dict_get d summary_key JNull),
                    keywords_count = kc\<rparr>))"

text \<open>The counters of a valid record, before the sample is taken.\<close>

definition count_valid :: "(ustring \<times> json) list \<Rightarrow> stats \<Rightarrow> stats" where
  "count_valid d st =
     st\<lparr>valid_articles := valid_articles st + 1,
        articles_with_content :=
          articles_with_content st + (if truthy (dict_get d content_key JNull) then 1 else 0),
        articles_with_summary :=
          articles_with_summary st + (if truthy (dict_get d summary_key JNull) then 1 else 0),
        articles_with_keywords :=
          articles_with_keywords st + (if truthy (dict_get d keywords_key JNull) then 1 else 0)\<rparr>"

text \<open>One iteration of \<^verbatim>\<open>for i, item in enumerate(data)\<close>.\<close>

definition stats_step :: "nat \<Rightarrow> json \<Rightarrow> stats \<Rightarrow> py_exn + stats" where
  "stats_step i item st =
     (case item of
        JDict d \<Rightarrow>
          if lacks_error d then
            (let st' = count_valid d st in
             if length (sample_articles st') < 5 then
               (case make_sample i d of
                  Inl e \<Rightarrow> Inl e
                | Inr s \<Rightarrow> Inr (st'\<lparr>sample_articles := sample_articles st' @ [s]\<rparr>))
             else Inr st')
          else Inr (st\<lparr>error_articles :=
                         error_articles st @ [(i, dict_get d error_key (JStr unknown_error))]\<rparr>)
      | _ \<Rightarrow> Inr st)"

fun stats_loop :: "nat \<Rightarrow> json list \<Rightarrow> stats \<Rightarrow> py_exn + stats" where
  "stats_loop i [] st = Inr st"
| "stats_loop i (item # rest) st =
     (case stats_step i item st of
        Inl e \<Rightarrow> Inl e
      | Inr st' \<Rightarrow> stats_loop (Suc i) rest st')"

definition initial_stats :: "nat \<Rightarrow> stats" where
  "initial_stats n =
     \<lparr>total_articles = n, valid_articles = 0, articles_with_content = 0,
      articles_with_summary = 0, articles_with_keywords = 0,
      sample_articles = [], error_articles = []\<rparr>"

text \<open>
  \<^verbatim>\<open>extract_articles_info\<close> on the value \<^verbatim>\<open>json.load\<close> returned for the file. A value
  that is not a list raises \<^verbatim>\<open>ValueError\<close>; every exception ends in the handler.
\<close>

definition extract_articles_info :: "json \<Rightarrow> report" where
  "extract_articles_info data =
     (case data of
        JList items \<Rightarrow>
          (case stats_loop 0 items (initial_stats (length items)) of
             Inl e \<Rightarrow> ErrorReport e
           | Inr st \<Rightarrow> StatsReport st)
      | _ \<Rightarrow> ErrorReport ValueError)"

text \<open>A valid record: a dictionary without the key \<^verbatim>\<open>error\<close>.\<close>

fun is_valid_record :: "json \<Rightarrow> bool" where
  "is_valid_record (JDict d) = lacks_error d"
| "is_valid_record j = False"

fun is_error_record :: "json \<Rightarrow> bool" where
  "is_error_record (JDict d) = (\<not> lacks_error d)"
| "is_error_record j = False"

text \<open>A valid record whose field \<open>k\<close> is present and true in the sense of \<^const>\<open>truthy\<close>.\<close>

fun has_field :: "ustring \<Rightarrow> json \<Rightarrow> bool" where
  "has_field k (JDict d) = (lacks_error d \<and> truthy (dict_get d k JNull))"
| "has_field k j = False"

section \<open>Extraction orchestrator: \<^verbatim>\<open>parse_single_article\<close> and the loop of \<^verbatim>\<open>parse_docx_civil_code\<close>\<close>

record article =
  title :: ustring
  content :: ustring

text \<open>
  The structured-generation collaborator is outside the repository. One call either
  raises an exception (of some class derived from \<^verbatim>\<open>Exception\<close>) or returns a response
  whose \<^verbatim>\<open>choices[0].message.content\<close> is a string or \<^verbatim>\<open>None\<close>. A failure to read
  \<^verbatim>\<open>choices[0].message.content\<close> is an exception raised before \<^verbatim>\<open>model_response\<close> is
  bound, like one raised by the call. The collaborator may answer differently from call
  to call, so it is a function of a state \<open>'w\<close> of the outside world and of the user
  prompt; the system prompt, the model name and the temperature are constants of the
  request.
\<close>

datatype call_outcome = Raises py_exn | Responds "ustring option"

type_synonym 'w client = "'w \<Rightarrow> ustring \<Rightarrow> call_outcome \<times> 'w"

text \<open>
  \<^verbatim>\<open>json.loads\<close> on a string is a parameter too: it returns the parsed value, raises
  \<^verbatim>\<open>JSONDecodeError\<close> on text that is not JSON, or raises another exception
  (\<^verbatim>\<open>RecursionError\<close> on deep nesting).
\<close>

type_synonym loads = "ustring \<Rightarrow> py_exn + json"

text \<open>The user prompt of the word-processing parser, an f-string around the context and the text.\<close>

definition user_prompt :: "ustring \<Rightarrow> ustring \<Rightarrow> ustring" where
  "user_prompt document_context article_text =
     [10, 35831, 23558, 20197, 19979, 27665, 27861, 20856, 26465, 27454, 22788, 29702, 25104,
      32, 74, 83, 79, 78, 32, 26684, 24335, 12290, 10, 10]
     @ document_context
     @ [10, 10, 26465, 27454, 25991, 26412, 65306, 10]
     @ article_text
     @ [10, 10, 35831, 30452, 25509, 36755, 20986, 32, 74, 83, 79, 78, 65292, 19981, 35201,
        26377, 20854, 20182, 20219, 20309, 35299, 37322, 12290, 10]"

definition raw_response_key :: ustring where
  "raw_response_key = ascii ''raw_response''"

definition failed_to_parse :: "nat \<Rightarrow> ustring" where
  "failed_to_parse article_index =
     ascii ''Failed to parse JSON for article '' @ str_nat (article_index + 1)"

definition other_error :: "nat \<Rightarrow> ustring" where
  "other_error article_index = ascii ''Other error for article '' @ str_nat (article_index + 1)"

text \<open>
  The body of the \<^verbatim>\<open>try\<close> block. It ends with the parsed value, or with an exception
  together with the binding of the local variable \<^verbatim>\<open>model_response\<close> at the moment of
  the raise: \<open>None\<close> while the variable is unbound, \<open>Some r\<close> once it is bound to \<open>r\<close>.
  \<^verbatim>\<open>json.loads(None)\<close> raises \<^verbatim>\<open>TypeError\<close>.
\<close>

definition try_block ::
  "'w client \<Rightarrow> loads \<Rightarrow> ustring \<Rightarrow> ustring \<Rightarrow> 'w \<Rightarrow>
     ((py_exn \<times> ustring option option) + json) \<times> 'w" where
  "try_block client json_loads article_text document_context w =
     (case client w (user_prompt document_context article_text) of
        (Raises e, w') \<Rightarrow> (Inl (e, None), w')
      | (Responds None, w') \<Rightarrow> (Inl (TypeError, Some None), w')
      | (Responds (Some model_response), w') \<Rightarrow>
          (case json_loads model_response of
             Inl e \<Rightarrow> (Inl (e, Some (Some model_response)), w')
           | Inr json_output \<Rightarrow> (Inr json_output, w')))"

text \<open>
  The two \<^verbatim>\<open>except\<close> clauses. They select by the class of the exception, wherever in
  the block it was raised. The first clause reads \<^verbatim>\<open>model_response\<close>; reading an unbound
  local raises \<^verbatim>\<open>UnboundLocalError\<close>, which leaves the function, since an exception
  raised in a handler is not passed to the clauses after it.
\<close>

definition except_clauses :: "nat \<Rightarrow> py_exn \<Rightarrow> ustring option option \<Rightarrow> py_exn + json" where
  "except_clauses article_index e bound =
     (if e = JSONDecodeError then
        (case bound of
           None \<Rightarrow> Inl UnboundLocalError
         | Some None \<Rightarrow>
             Inr (JDict [(error_key, JStr (failed_to_parse article_index)),
                         (raw_response_key, JNull)])
         | Some (Some model_response) \<Rightarrow>
             Inr (JDict [(error_key, JStr (failed_to_parse article_index)),
                         (raw_response_key, JStr model_response)]))
      else Inr (JDict [(error_key, JStr (other_error article_index))]))"

definition parse_single_article ::
  "'w client \<Rightarrow> loads \<Rightarrow> ustring \<Rightarrow> nat \<Rightarrow> ustring \<Rightarrow> 'w \<Rightarrow> (py_exn + json) \<times> 'w" where
  "parse_single_article client json_loads article_text article_index document_context w =
     (case try_block client json_loads article_text document_context w of
        (Inr json_output, w') \<Rightarrow> (Inr json_output, w')
      | (Inl (e, bound), w') \<Rightarrow> (except_clauses article_index e bound, w'))"

text \<open>
  \<^verbatim>\<open>PDFCivilCodeParser.parse_single_article\<close> has the same \<^verbatim>\<open>try\<close> block and the same
  handlers; it takes no document context and its user prompt holds the text only.
\<close>

definition user_prompt_pdf :: "ustring \<Rightarrow> ustring" where
  "user_prompt_pdf article_text =
     [10, 35831, 23558, 20197, 19979, 27665, 27861, 20856, 26465, 27454, 22788, 29702, 25104,
      32, 74, 83, 79, 78, 32, 26684, 24335, 12290, 10, 10, 26465, 27454, 25991, 26412, 65306, 10]
     @ article_text
     @ [10, 10, 35831, 30452, 25509, 36755, 20986, 32, 74, 83, 79, 78, 65292, 19981, 35201,
        26377, 20854, 20182, 20219, 20309, 35299, 37322, 12290, 10]"

definition parse_single_article_pdf ::
  "'w client \<Rightarrow> loads \<Rightarrow> ustring \<Rightarrow> nat \<Rightarrow> 'w \<Rightarrow> (py_exn + json) \<times> 'w" where
  "parse_single_article_pdf client json_loads article_text article_index w =
     (case client w (user_prompt_pdf article_text) of
        (Raises e, w') \<Rightarrow> (except_clauses article_index e None, w')
      | (Responds None, w') \<Rightarrow> (except_clauses article_index TypeError (Some None), w')
      | (Responds (Some model_response), w') \<Rightarrow>
          (case json_loads model_response of
             Inl e \<Rightarrow> (except_clauses article_index e (Some (Some model_response)), w')
           | Inr json_output \<Rightarrow> (Inr json_output, w')))"

text \<open>
  The loop \<^verbatim>\<open>for i, article in enumerate(articles)\<close> of \<^verbatim>\<open>parse_docx_civil_code\<close>, from
  index \<open>i\<close> with the results collected so far. An exception that leaves
  \<^verbatim>\<open>parse_single_article\<close> leaves the loop and the function: no result list is saved or
  returned. The pause between two calls changes no value and is left out.
\<close>

fun parse_articles ::
  "'w client \<Rightarrow> loads \<Rightarrow> ustring \<Rightarrow> nat \<Rightarrow> article list \<Rightarrow> json list \<Rightarrow> 'w \<Rightarrow>
     (py_exn + json list) \<times> 'w" where
  "parse_articles client json_loads document_context i [] all_results w = (Inr all_results, w)"
| "parse_articles client json_loads document_context i (a # rest) all_results w =
     (let full_text = title a @ [10] @ content a in
      case parse_single_article client json_loads full_text i document_context w of
        (Inl e, w') \<Rightarrow> (Inl e, w')
      | (Inr result, w') \<Rightarrow>
          parse_articles client json_loads document_context (Suc i) rest (all_results @ [result]) w')"

definition parse_docx_civil_code ::
  "'w client \<Rightarrow> loads \<Rightarrow> ustring \<Rightarrow> article list \<Rightarrow> 'w \<Rightarrow> (py_exn + json list) \<times> 'w" where
  "parse_docx_civil_code client json_loads document_context articles w =
     parse_articles client json_loads document_context 0 articles [] w"

text \<open>A collaborator whose every call raises \<^verbatim>\<open>json.JSONDecodeError\<close>, and one that
  always answers with the same text.\<close>

definition undecodable_client :: "unit client" where
  "undecodable_client w prompt = (Raises JSONDecodeError, w)"

definition constant_client :: "ustring \<Rightarrow> unit client" where
  "constant_client reply w prompt = (Responds (Some reply), w)"

text \<open>A \<^verbatim>\<open>json.loads\<close> that rejects every text.\<close>

definition rejecting_loads :: loads where
  "rejecting_loads s = Inl JSONDecodeError"

text \<open>
  The state of the world before the call for the unit at position \<open>k\<close>, and the record
  that call produces, when the loop starts in \<open>w\<close> at index \<open>i\<close>.
\<close>

fun world_before ::
  "'w client \<Rightarrow> loads \<Rightarrow> ustring \<Rightarrow> nat \<Rightarrow> article list \<Rightarrow> 'w \<Rightarrow> nat \<Rightarrow> 'w" where
  "world_before client json_loads document_context i [] w k = w"
| "world_before client json_loads document_context i (a # rest) w 0 = w"
| "world_before client json_loads document_context i (a # rest) w (Suc k) =
     world_before client json_loads document_context (Suc i) rest
       (snd (parse_single_article client json_loads (title a @ [10] @ content a) i document_context w)) k"

text \<open>No call of the collaborator raises \<^verbatim>\<open>JSONDecodeError\<close> itself.\<close>

definition decodes :: "'w client \<Rightarrow> bool" where
  "decodes client = (\<forall>w prompt. fst (client w prompt) \<noteq> Raises JSONDecodeError)"

section \<open>Character classes and the article-marker pattern\<close>

text \<open>
  Whitespace as \<^verbatim>\<open>str.strip()\<close> removes it and as \<^verbatim>\<open>\s\<close> matches it in a pattern on
  \<^verbatim>\<open>str\<close>: the code points for which \<^verbatim>\<open>str.isspace\<close> holds.
\<close>

definition is_space :: "uchar \<Rightarrow> bool" where
  "is_space c =
     ((9 \<le> c \<and> c \<le> 13) \<or> (28 \<le> c \<and> c \<le> 32) \<or> c = 133 \<or> c = 160 \<or> c = 5760 \<or>
      (8192 \<le> c \<and> c \<le> 8202) \<or> c = 8232 \<or> c = 8233 \<or> c = 8239 \<or> c = 8287 \<or> c = 12288)"

text \<open>
  \<^verbatim>\<open>\d\<close> in a pattern on \<^verbatim>\<open>str\<close> matches every Unicode decimal digit (general
  category Nd), not only \<^verbatim>\<open>0\<close> to \<^verbatim>\<open>9\<close>. The table lists the ranges of these code
  points (Unicode 14).
\<close>

definition decimal_ranges :: "(nat \<times> nat) list" where
  "decimal_ranges =
     [(48, 57), (1632, 1641), (1776, 1785), (1984, 1993), (2406, 2415), (2534, 2543),
      (2662, 2671), (2790, 2799), (2918, 2927), (3046, 3055), (3174, 3183), (3302, 3311),
      (3430, 3439), (3558, 3567), (3664, 3673), (3792, 3801), (3872, 3881), (4160, 4169),
      (4240, 4249), (6112, 6121), (6160, 6169), (6470, 6479), (6608, 6617), (6784, 6793),
      (6800, 6809), (6992, 7001), (7088, 7097), (7232, 7241), (7248, 7257), (42528, 42537),
      (43216, 43225), (43264, 43273), (43472, 43481), (43504, 43513), (43600, 43609),
      (44016, 44025), (65296, 65305), (66720, 66729), (68912, 68921), (69734, 69743),
      (69872, 69881), (69942, 69951), (70096, 70105), (70384, 70393), (70736, 70745),
      (70864, 70873), (71248, 71257), (71360, 71369), (71472, 71481), (71904, 71913),
      (72016, 72025), (72784, 72793), (73040, 73049), (73120, 73129), (92768, 92777),
      (92864, 92873), (93008, 93017), (120782, 120831), (123200, 123209), (123632, 123641),
      (125264, 125273), (130032, 130041)]"

definition is_decimal :: "uchar \<Rightarrow> bool" where
  "is_decimal c = list_ex (\<lambda>(lo, hi). lo \<le> c \<and> c \<le> hi) decimal_ranges"

text \<open>
  The character class of the pattern: the thirteen Chinese numerals
  (U+96F6, U+4E00, U+4E8C, U+4E09, U+56DB, U+4E94, U+516D, U+4E03, U+516B, U+4E5D, U+5341,
  U+767E, U+5343) and \<^verbatim>\<open>\d\<close>.
\<close>

definition is_numeral :: "uchar \<Rightarrow> bool" where
  "is_numeral c =
     (c \<in> set [38646, 19968, 20108, 19977, 22235, 20116, 20845, 19971, 20843, 20061, 21313,
               30334, 21315] \<or> is_decimal c)"

text \<open>
  \<^verbatim>\<open>re.match\<close> of the marker pattern (U+7B2C, one or more characters of the class,
  U+6761) at the start of a string: the matched token and the rest of the string. Neither
  U+7B2C nor U+6761 is in the class, so the greedy repetition takes the whole run of class
  characters and no shorter run can match.
\<close>

definition match_marker :: "ustring \<Rightarrow> (ustring \<times> ustring) option" where
  "match_marker s =
     (case s of
        [] \<Rightarrow> None
      | c # cs \<Rightarrow>
          if c \<noteq> 31532 then None
          else (case dropWhile is_numeral cs of
                  [] \<Rightarrow> None
                | d # rest \<Rightarrow>
                    if d = 26465 \<and> takeWhile is_numeral cs \<noteq> []
                    then Some (c # takeWhile is_numeral cs @ [d], rest)
                    else None))"

definition marker_at :: "ustring \<Rightarrow> bool" where
  "marker_at s = (match_marker s \<noteq> None)"

section \<open>String operations of the standard library\<close>

text \<open>\<^verbatim>\<open>s.strip()\<close>.\<close>

definition lstrip :: "ustring \<Rightarrow> ustring" where
  "lstrip s = dropWhile is_space s"

definition rstrip :: "ustring \<Rightarrow> ustring" where
  "rstrip s = rev (dropWhile is_space (rev s))"

definition strip :: "ustring \<Rightarrow> ustring" where
  "strip s = lstrip (rstrip s)"

text \<open>\<^verbatim>\<open>s.split('\n')\<close>: never empty, one more piece than there are newlines.\<close>

fun split_nl :: "ustring \<Rightarrow> ustring list" where
  "split_nl [] = [[]]"
| "split_nl (c # cs) =
     (if c = 10 then [] # split_nl cs
      else (case split_nl cs of
              [] \<Rightarrow> [[c]]
            | l # ls \<Rightarrow> (c # l) # ls))"

text \<open>\<^verbatim>\<open>text.replace('\r\n', '\n')\<close> and \<^verbatim>\<open>text.replace('\r', '\n')\<close>.\<close>

fun replace_crlf :: "ustring \<Rightarrow> ustring" where
  "replace_crlf (c # d # cs) =
     (if c = 13 \<and> d = 10 then 10 # replace_crlf cs else c # replace_crlf (d # cs))"
| "replace_crlf cs = cs"

definition replace_cr :: "ustring \<Rightarrow> ustring" where
  "replace_cr s = map (\<lambda>c. if c = 13 then 10 else c) s"

text \<open>
  \<^verbatim>\<open>re.sub(r' +', ' ', text)\<close> and \<^verbatim>\<open>re.sub(r'\n+', '\n', text)\<close>: every maximal run of
  the character \<open>x\<close> becomes one \<open>x\<close>.
\<close>

function collapse_runs :: "uchar \<Rightarrow> ustring \<Rightarrow> ustring" where
  "collapse_runs x [] = []"
| "collapse_runs x (c # cs) =
     (if c = x then x # collapse_runs x (dropWhile (\<lambda>d. d = x) cs)
      else c # collapse_runs x cs)"
  by pat_completeness auto
termination
  by (relation "measure (\<lambda>(x, s). length s)")
     (auto simp: length_dropWhile_le less_Suc_eq_le)

text \<open>
  \<^verbatim>\<open>re.sub(marker, r'\n\1', text)\<close>: scanning from the left, every match of the marker
  pattern is replaced by a newline and the match; the scan goes on after the match.
\<close>

function insert_newlines :: "ustring \<Rightarrow> ustring" where
  "insert_newlines [] = []"
| "insert_newlines (c # cs) =
     (case match_marker (c # cs) of
        Some (m, rest) \<Rightarrow> 10 # m @ insert_newlines rest
      | None \<Rightarrow> c # insert_newlines cs)"
  by pat_completeness auto
termination
proof (relation "measure length")
  show "wf (measure length)" by simp
next
  fix c :: nat and cs x2 x y
  assume "match_marker (c # cs) = Some x2" and "(x, y) = x2"
  then have "length y \<le> length (dropWhile is_numeral cs)"
    by (auto simp: match_marker_def split: if_splits list.splits)
  also have "\<dots> \<le> length cs" by (rule length_dropWhile_le)
  finally show "(y, c # cs) \<in> measure length" by simp
next
  fix c :: nat and cs
  show "(cs, c # cs) \<in> measure length" by simp
qed

text \<open>\<^verbatim>\<open>re.findall\<close> of the marker pattern: the matches, from left to right.\<close>

function find_markers :: "ustring \<Rightarrow> ustring list" where
  "find_markers [] = []"
| "find_markers (c # cs) =
     (case match_marker (c # cs) of
        Some (m, rest) \<Rightarrow> m # find_markers rest
      | None \<Rightarrow> find_markers cs)"
  by pat_completeness auto
termination
proof (relation "measure length")
  show "wf (measure length)" by simp
next
  fix c :: nat and cs x2 x y
  assume "match_marker (c # cs) = Some x2" and "(x, y) = x2"
  then have "length y \<le> length (dropWhile is_numeral cs)"
    by (auto simp: match_marker_def split: if_splits list.splits)
  also have "\<dots> \<le> length cs" by (rule length_dropWhile_le)
  finally show "(y, c # cs) \<in> measure length" by simp
next
  fix c :: nat and cs
  show "(cs, c # cs) \<in> measure length" by simp
qed

section \<open>Text normalizer: \<^verbatim>\<open>PDFCivilCodeParser._clean_pdf_text\<close>\<close>

definition clean_pdf_text :: "ustring \<Rightarrow> ustring" where
  "clean_pdf_text text =
     strip (insert_newlines (collapse_runs 10 (collapse_runs 32 (replace_cr (replace_crlf text)))))"

section \<open>Line-oriented segmenter: the loop of \<^verbatim>\<open>PDFCivilCodeParser.extract_articles_from_pdf\<close>\<close>

definition empty_article :: article where
  "empty_article = \<lparr>title = [], content = []\<rparr>"

text \<open>Appending a line to the content of the current article.\<close>

definition add_line :: "ustring \<Rightarrow> article \<Rightarrow> article" where
  "add_line line cur =
     (if content cur \<noteq> [] then cur\<lparr>content := content cur @ [10] @ line\<rparr>
      else cur\<lparr>content := line\<rparr>)"

text \<open>One iteration of \<^verbatim>\<open>for line in lines\<close>; the state is \<^verbatim>\<open>articles\<close> and
  \<^verbatim>\<open>current_article\<close>.\<close>

definition pdf_step :: "article list \<times> article \<Rightarrow> ustring \<Rightarrow> article list \<times> article" where
  "pdf_step st raw_line =
     (case st of (articles, current_article) \<Rightarrow>
        let line = strip raw_line in
        if line = [] then (articles, current_article)
        else if marker_at line then
          ((if title current_article \<noteq> [] then articles @ [current_article] else articles),
           \<lparr>title = line, content = []\<rparr>)
        else if title current_article \<noteq> [] then (articles, add_line line current_article)
        else (articles, current_article))"

text \<open>The statement after the loop: the last article is added when it has a title.\<close>

definition flush :: "article list \<times> article \<Rightarrow> article list" where
  "flush st =
     (case st of (articles, current_article) \<Rightarrow>
        if title current_article \<noteq> [] then articles @ [current_article] else articles)"

definition segment_lines :: "ustring list \<Rightarrow> article list" where
  "segment_lines lines = flush (foldl pdf_step ([], empty_article) lines)"

text \<open>The function on the text the PDF reader returned.\<close>

definition extract_articles_from_pdf :: "ustring \<Rightarrow> article list" where
  "extract_articles_from_pdf full_text = segment_lines (split_nl (clean_pdf_text full_text))"

section \<open>Paragraph-oriented segmenter: \<^verbatim>\<open>DocxCivilCodeParser.extract_articles_from_docx\<close>\<close>

text \<open>
  The second \<^verbatim>\<open>re.match\<close>, of the marker followed by \<^verbatim>\<open>\s*(.*)\<close>: the title is the
  marker token; the content is what follows the whitespace after it, up to the first
  newline (\<^verbatim>\<open>.\<close> does not match a newline), stripped. The branch for a failed match
  takes the whole text as title.
\<close>

definition open_article :: "ustring \<Rightarrow> article" where
  "open_article text =
     (case match_marker text of
        Some (m, rest) \<Rightarrow>
          \<lparr>title = m, content = strip (takeWhile (\<lambda>c. c \<noteq> 10) (dropWhile is_space rest))\<rparr>
      | None \<Rightarrow> \<lparr>title = text, content = []\<rparr>)"

definition docx_step :: "article list \<times> article \<Rightarrow> ustring \<Rightarrow> article list \<times> article" where
  "docx_step st paragraph =
     (case st of (articles, current_article) \<Rightarrow>
        let text = strip paragraph in
        if text = [] then (articles, current_article)
        else if marker_at text then
          ((if title current_article \<noteq> [] then articles @ [current_article] else articles),
           open_article text)
        else if title current_article \<noteq> [] then (articles, add_line text current_article)
        else (articles, current_article))"

text \<open>The function on the texts of the paragraphs of the document, in order.\<close>

definition extract_articles_from_docx :: "ustring list \<Rightarrow> article list" where
  "extract_articles_from_docx paragraphs = flush (foldl docx_step ([], empty_article) paragraphs)"

section \<open>Regex split: \<^verbatim>\<open>split_articles_by_regex\<close>\<close>

text \<open>
  \<^verbatim>\<open>re.split\<close> on the lookahead of the marker pattern cuts the text before every position
  at which the marker matches; a match at position 0 leaves an empty first piece.
  \<open>cut_before_markers s\<close> cuts \<open>s\<close> before every such position after its first character;
  it never returns the empty list.
\<close>

fun cut_before_markers :: "ustring \<Rightarrow> ustring list" where
  "cut_before_markers [] = [[]]"
| "cut_before_markers (c # cs) =
     (case cut_before_markers cs of
        [] \<Rightarrow> [[c]]
      | seg # segs \<Rightarrow> if marker_at cs then [c] # seg # segs else (c # seg) # segs)"

definition re_split_markers :: "ustring \<Rightarrow> ustring list" where
  "re_split_markers text =
     (if marker_at text then [] # cut_before_markers text else cut_before_markers text)"

definition split_articles_by_regex :: "ustring \<Rightarrow> ustring list" where
  "split_articles_by_regex text = filter (\<lambda>art. strip art \<noteq> []) (re_split_markers text)"

section \<open>Notions used to state the properties of the segmenters\<close>

text \<open>No marker matches at any position of the string.\<close>

fun marker_free :: "ustring \<Rightarrow> bool" where
  "marker_free [] = True"
| "marker_free (c # cs) = (\<not> marker_at (c # cs) \<and> marker_free cs)"

text \<open>No marker matches at any position of the string after the first.\<close>

definition mid_free :: "ustring \<Rightarrow> bool" where
  "mid_free l = marker_free (tl l)"

text \<open>Every position after the first at which a marker matches follows a newline.\<close>

fun nl_before :: "ustring \<Rightarrow> bool" where
  "nl_before [] = True"
| "nl_before (c # cs) = ((\<not> marker_at cs \<or> c = 10) \<and> nl_before cs)"

text \<open>\<^verbatim>\<open>'\n'.join(lines)\<close>.\<close>

fun join_nl :: "ustring list \<Rightarrow> ustring" where
  "join_nl [] = []"
| "join_nl [l] = l"
| "join_nl (l # l' # ls) = l @ 10 # join_nl (l' # ls)"

text \<open>The non-empty trimmed lines of a text: what both segmenters read of it.\<close>

definition content_lines :: "ustring \<Rightarrow> ustring list" where
  "content_lines text = filter (\<lambda>l. l \<noteq> []) (map strip (split_nl text))"

text \<open>The text the orchestrator builds from a unit, \<^verbatim>\<open>f"{title}\n{content}"\<close>.\<close>

definition unit_text :: "article \<Rightarrow> ustring" where
  "unit_text u = title u @ [10] @ content u"

text \<open>The text before the first marker; empty when the text starts with a marker.\<close>

definition front_matter :: "ustring \<Rightarrow> ustring" where
  "front_matter text = (if marker_at text then [] else hd (cut_before_markers text))"

text \<open>The units the line-oriented loop still produces from the lines \<open>ls\<close> when the
  current article is \<open>cur\<close>, and the same for the paragraph-oriented loop.\<close>

definition pdf_from :: "article \<Rightarrow> ustring list \<Rightarrow> article list" where
  "pdf_from cur ls = flush (foldl pdf_step ([], cur) ls)"

definition docx_from :: "article \<Rightarrow> ustring list \<Rightarrow> article list" where
  "docx_from cur ps = flush (foldl docx_step ([], cur) ps)"

text \<open>The marker token at the start of a title, as \<^verbatim>\<open>re.match\<close> finds it.\<close>

definition marker_token :: "ustring \<Rightarrow> ustring option" where
  "marker_token s = map_option fst (match_marker s)"

text \<open>The non-empty trimmed lines of the text of a unit.\<close>

definition unit_lines :: "article \<Rightarrow> ustring list" where
  "unit_lines u = content_lines (unit_text u)"

text \<open>
  A unit with its title line split at the marker, stated from the marker pattern alone:
  the title becomes the marker token, and the trimmed text after the token comes first
  in the content, before a newline and the content there was. A unit whose title does
  not start with a marker is left as it is.
\<close>

definition join_content :: "ustring \<Rightarrow> ustring \<Rightarrow> ustring" where
  "join_content trailing c =
     (if trailing = [] then c else if c = [] then trailing else trailing @ 10 # c)"

definition split_title :: "article \<Rightarrow> article" where
  "split_title u =
     (case match_marker (title u) of
        Some (m, r) \<Rightarrow> \<lparr>title = m, content = join_content (strip r) (content u)\<rparr>
      | None \<Rightarrow> u)"

text \<open>The non-empty trimmed texts of a list of lines or paragraphs.\<close>

definition trimmed :: "ustring list \<Rightarrow> ustring list" where
  "trimmed ls = filter (\<lambda>l. l \<noteq> []) (map strip ls)"

text \<open>No two adjacent occurrences of the character \<open>x\<close>.\<close>

fun no_double :: "uchar \<Rightarrow> ustring \<Rightarrow> bool" where
  "no_double x (c # d # s) = (\<not> (c = x \<and> d = x) \<and> no_double x (d # s))"
| "no_double x s = True"

section \<open>Properties of the aggregator\<close>

lemma process_sub_items_eq:
  "process_sub_items xs (acc, printed) =
     (acc @ filter is_dict xs,
      printed @ map (\<lambda>s. NoteSubObject (item_get s article_number_key (JStr unknown_article)))
                (filter is_dict xs))"
  by (induction xs arbitrary: acc printed) simp_all

lemma process_items_eq:
  "process_items i data (acc, printed) =
     (acc @ concat (map kept_of data), printed @ notes_from i data)"
proof (induction data arbitrary: i acc printed)
  case Nil
  show ?case by simp
next
  case (Cons item rest)
  show ?case
    by (cases item) (simp_all add: Cons.IH process_sub_items_eq)
qed

lemma process_data_eq:
  "process_data data = (concat (map kept_of data), notes_from 0 data)"
  by (simp add: process_data_def process_items_eq)

lemma concat_kept_of_dicts:
  "list_all is_dict xs \<Longrightarrow> concat (map kept_of xs) = xs"
proof (induction xs)
  case Nil
  show ?case by simp
next
  case (Cons x xs)
  then show ?case by (cases x) simp_all
qed

lemma filter_is_dict_all:
  "list_all is_dict xs \<Longrightarrow> filter is_dict xs = xs"
  by (induction xs) simp_all

lemma fst_process_data:
  "fst (process_data data) = concat (map kept_of data)"
  by (simp add: process_data_eq)

lemma skip_notes_from:
  "filter is_skip_note (notes_from i data) =
     map NoteSkipped (filter (\<lambda>j. \<not> is_dict j \<and> \<not> is_list j) data)"
proof (induction data arbitrary: i)
  case Nil
  show ?case by simp
next
  case (Cons item rest)
  have "filter is_skip_note (map (\<lambda>s. NoteSubObject (f s)) ys) = []" for f and ys :: "json list"
    by (induction ys) simp_all
  then show ?case
    by (cases item) (simp_all add: Cons.IH)
qed

text \<open>
  C7 (as stated): the aggregator replaces every nested sequence by its members. The
  code keeps only the members that are mappings, so the statement fails on a nested
  sequence holding \<^verbatim>\<open>null\<close>.
\<close>

theorem process_data_spec_flatten_counterexample:
  "fst (process_data [JList [JNull]]) \<noteq> spec_flatten [JList [JNull]]"
  by (simp add: process_data_def spec_flatten_def)

text \<open>
  C7 (amended): the output is, in order, every top-level mapping as it is and, for every
  top-level sequence, those of its members that are mappings; every other element is
  dropped. For \<open>m\<close> records around one nested sequence of three records the output is
  the flat list of the \<open>m + 3\<close> records in their original relative order, each record
  being the very value of the input.
\<close>

theorem process_data_flatten:
  "fst (process_data data) = concat (map kept_of data) \<and>
   (list_all is_dict pre \<and> list_all is_dict trio \<and> list_all is_dict post \<and> length trio = 3 \<longrightarrow>
      fst (process_data (pre @ JList trio # post)) = pre @ trio @ post \<and>
      length (fst (process_data (pre @ JList trio # post))) = length pre + length post + 3)"
  by (simp add: fst_process_data concat_kept_of_dicts filter_is_dict_all)

theorem process_data_flatten_witness:
  "list_all is_dict [JDict [], JDict [(ascii ''error'', JNull)]] \<and>
   list_all is_dict [JDict [(ascii ''a'', JInt 1)], JDict [(ascii ''a'', JInt 2)], JDict []] \<and>
   list_all is_dict [JDict [(ascii ''z'', JBool True)]] \<and>
   fst (process_data ([JDict [], JDict [(ascii ''error'', JNull)]] @
          JList [JDict [(ascii ''a'', JInt 1)], JDict [(ascii ''a'', JInt 2)], JDict []] #
          [JDict [(ascii ''z'', JBool True)]])) =
     [JDict [], JDict [(ascii ''error'', JNull)]] @
     [JDict [(ascii ''a'', JInt 1)], JDict [(ascii ''a'', JInt 2)], JDict []] @
     [JDict [(ascii ''z'', JBool True)]]"
  using process_data_flatten
    [of "[JDict [], JDict [(ascii ''error'', JNull)]] @
          JList [JDict [(ascii ''a'', JInt 1)], JDict [(ascii ''a'', JInt 2)], JDict []] #
          [JDict [(ascii ''z'', JBool True)]]"
        "[JDict [], JDict [(ascii ''error'', JNull)]]"
        "[JDict [(ascii ''a'', JInt 1)], JDict [(ascii ''a'', JInt 2)], JDict []]"
        "[JDict [(ascii ''z'', JBool True)]]"]
  by simp

text \<open>
  C10: the flatten is one level deep and filters the members of a nested sequence by
  type. A top-level sequence contributes exactly its members that are mappings (a member
  that is a sequence, a string, a number or \<^verbatim>\<open>null\<close> is dropped); the only lines
  printed for it are one per kept member; and the skip notes of a run are exactly those
  of the top-level elements that are neither a mapping nor a sequence, so no note is
  printed for a dropped member.
\<close>

theorem process_data_nested_members:
  "fst (process_data (pre @ JList xs # post)) =
     fst (process_data pre) @ filter is_dict xs @ fst (process_data post) \<and>
   length (snd (process_data [JList xs])) = length (filter is_dict xs) \<and>
   filter is_skip_note (snd (process_data data)) =
     map NoteSkipped (filter (\<lambda>j. \<not> is_dict j \<and> \<not> is_list j) data)"
  by (simp add: process_data_eq skip_notes_from)

section \<open>Properties of the validation statistics\<close>

lemma stats_step_counts:
  assumes "stats_step i item st = Inr st'"
  shows "total_articles st' = total_articles st"
    and "valid_articles st' = valid_articles st + (if is_valid_record item then 1 else 0)"
    and "articles_with_content st' =
           articles_with_content st + (if has_field content_key item then 1 else 0)"
    and "articles_with_summary st' =
           articles_with_summary st + (if has_field summary_key item then 1 else 0)"
    and "articles_with_keywords st' =
           articles_with_keywords st + (if has_field keywords_key item then 1 else 0)"
    and "length (error_articles st') =
           length (error_articles st) + (if is_error_record item then 1 else 0)"
    and "length (sample_articles st) \<le> 5 \<Longrightarrow> length (sample_articles st') \<le> 5"
  using assms
  by (cases item; auto simp: stats_step_def count_valid_def Let_def
        split: if_splits sum.splits)+

lemma stats_loop_counts:
  "stats_loop i items st = Inr st' \<Longrightarrow>
     total_articles st' = total_articles st \<and>
     valid_articles st' = valid_articles st + length (filter is_valid_record items) \<and>
     articles_with_content st' =
       articles_with_content st + length (filter (has_field content_key) items) \<and>
     articles_with_summary st' =
       articles_with_summary st + length (filter (has_field summary_key) items) \<and>
     articles_with_keywords st' =
       articles_with_keywords st + length (filter (has_field keywords_key) items) \<and>
     length (error_articles st') =
       length (error_articles st) + length (filter is_error_record items) \<and>
     (length (sample_articles st) \<le> 5 \<longrightarrow> length (sample_articles st') \<le> 5)"
proof (induction items arbitrary: i st)
  case Nil
  then show ?case by simp
next
  case (Cons item rest)
  from Cons.prems obtain s1
    where a: "stats_step i item st = Inr s1" and b: "stats_loop (Suc i) rest s1 = Inr st'"
    by (auto split: sum.splits)
  show ?case
    using Cons.IH[OF b] stats_step_counts[OF a] by simp
qed

text \<open>
  Whenever the pass ends without an exception, the report holds the counts the
  specification lists.
\<close>

lemma extract_articles_info_counts:
  assumes "extract_articles_info (JList items) = StatsReport st"
  shows "total_articles st = length items"
    and "valid_articles st = length (filter is_valid_record items)"
    and "articles_with_content st = length (filter (has_field content_key) items)"
    and "articles_with_summary st = length (filter (has_field summary_key) items)"
    and "articles_with_keywords st = length (filter (has_field keywords_key) items)"
    and "length (error_articles st) = length (filter is_error_record items)"
    and "length (sample_articles st) \<le> 5"
proof -
  from assms have l: "stats_loop 0 items (initial_stats (length items)) = Inr st"
    by (auto simp: extract_articles_info_def split: sum.splits)
  note c = stats_loop_counts[OF l]
  show "total_articles st = length items"
    and "valid_articles st = length (filter is_valid_record items)"
    and "articles_with_content st = length (filter (has_field content_key) items)"
    and "articles_with_summary st = length (filter (has_field summary_key) items)"
    and "articles_with_keywords st = length (filter (has_field keywords_key) items)"
    and "length (error_articles st) = length (filter is_error_record items)"
    and "length (sample_articles st) \<le> 5"
    using c by (simp_all add: initial_stats_def)
qed

text \<open>
  C9: for every list of records the report states a total equal to the length of the
  list, together with the other counts. The code does not do so on the one-record list
  \<^verbatim>\<open>[{"content": null}]\<close>: the record is valid, the sample entry takes \<^verbatim>\<open>len\<close> of
  its \<^verbatim>\<open>content\<close>, the \<^verbatim>\<open>TypeError\<close> ends in the handler, and the report states a
  total of zero.
\<close>

theorem extract_articles_info_null_content:
  "extract_articles_info (JList [JDict [(content_key, JNull)]]) = ErrorReport TypeError \<and>
   report_total (extract_articles_info (JList [JDict [(content_key, JNull)]])) = 0 \<and>
   length [JDict [(content_key, JNull)]] = 1"
  by (simp add: extract_articles_info_def stats_step_def lacks_error_def count_valid_def
      initial_stats_def make_sample_def dict_get_def content_key_def error_key_def
      summary_key_def keywords_key_def ascii_def)

section \<open>Properties of the extraction orchestrator\<close>

text \<open>The two branches of the failure taxonomy, and the success branch.\<close>

lemma parse_single_article_invalid_json:
  assumes "client w (user_prompt document_context article_text) = (Responds (Some r), w')"
    and "json_loads r = Inl JSONDecodeError"
  shows "parse_single_article client json_loads article_text article_index document_context w =
           (Inr (JDict [(error_key, JStr (failed_to_parse article_index)),
                        (raw_response_key, JStr r)]), w')"
  using assms by (simp add: parse_single_article_def try_block_def except_clauses_def)

lemma parse_single_article_other_exception:
  assumes "client w (user_prompt document_context article_text) = (Raises e, w')"
    and "e \<noteq> JSONDecodeError"
  shows "parse_single_article client json_loads article_text article_index document_context w =
           (Inr (JDict [(error_key, JStr (other_error article_index))]), w')"
  using assms by (simp add: parse_single_article_def try_block_def except_clauses_def)

lemma parse_single_article_success:
  assumes "client w (user_prompt document_context article_text) = (Responds (Some r), w')"
    and "json_loads r = Inr j"
  shows "parse_single_article client json_loads article_text article_index document_context w =
           (Inr j, w')"
  using assms by (simp add: parse_single_article_def try_block_def)

lemma failed_to_parse_2: "failed_to_parse 2 = ascii ''Failed to parse JSON for article 3''"
  by (simp add: failed_to_parse_def ascii_def str_nat.simps)

lemma parse_single_article_pdf_invalid_json:
  assumes "client w (user_prompt_pdf article_text) = (Responds (Some r), w')"
    and "json_loads r = Inl JSONDecodeError"
  shows "parse_single_article_pdf client json_loads article_text article_index w =
           (Inr (JDict [(error_key, JStr (failed_to_parse article_index)),
                        (raw_response_key, JStr r)]), w')"
  using assms by (simp add: parse_single_article_pdf_def except_clauses_def)

lemma parse_single_article_pdf_other_exception:
  assumes "client w (user_prompt_pdf article_text) = (Raises e, w')"
    and "e \<noteq> JSONDecodeError"
  shows "parse_single_article_pdf client json_loads article_text article_index w =
           (Inr (JDict [(error_key, JStr (other_error article_index))]), w')"
  using assms by (simp add: parse_single_article_pdf_def except_clauses_def)

text \<open>The scenario of the specification: a reply that is not JSON, at index 2.\<close>

lemma parse_single_article_scenario:
  "parse_single_article
     (constant_client [25265, 27465, 65292, 25105, 26080, 27861, 22788, 29702])
     rejecting_loads article_text 2 document_context () =
   (Inr (JDict [(ascii ''error'', JStr (ascii ''Failed to parse JSON for article 3'')),
                (ascii ''raw_response'',
                 JStr [25265, 27465, 65292, 25105, 26080, 27861, 22788, 29702])]), ())"
  by (simp add: parse_single_article_def try_block_def except_clauses_def constant_client_def
      rejecting_loads_def failed_to_parse_2 error_key_def raw_response_key_def)

text \<open>A call that returns a record: always, unless the collaborator call itself raises
  \<^verbatim>\<open>JSONDecodeError\<close>.\<close>

lemma parse_single_article_returns:
  assumes "decodes client"
  shows "\<exists>j. fst (parse_single_article client json_loads article_text article_index
                  document_context w) = Inr j"
proof -
  obtain out w' where c: "client w (user_prompt document_context article_text) = (out, w')"
    by (cases "client w (user_prompt document_context article_text)") auto
  with assms have "out \<noteq> Raises JSONDecodeError"
    unfolding decodes_def by (metis fst_conv)
  with c show ?thesis
    by (cases out)
       (auto simp: parse_single_article_def try_block_def except_clauses_def
             split: option.splits sum.splits)
qed

lemma parse_articles_one_to_one:
  assumes "decodes client"
  shows "\<exists>rs. fst (parse_articles client json_loads document_context i articles acc w) = Inr (acc @ rs)
           \<and> length rs = length articles
           \<and> (\<forall>k < length articles.
                 Inr (rs ! k) =
                   fst (parse_single_article client json_loads
                          (title (articles ! k) @ [10] @ content (articles ! k)) (i + k)
                          document_context
                          (world_before client json_loads document_context i articles w k)))"
proof (induction articles arbitrary: i acc w)
  case Nil
  show ?case by simp
next
  case (Cons a rest)
  let ?p = "parse_single_article client json_loads (title a @ [10] @ content a) i document_context w"
  obtain j where j: "fst ?p = Inr j"
    using parse_single_article_returns[OF assms] by blast
  obtain w' where p: "?p = (Inr j, w')"
    using j by (cases ?p) auto
  obtain rs where rs:
    "fst (parse_articles client json_loads document_context (Suc i) rest (acc @ [j]) w') =
       Inr ((acc @ [j]) @ rs)"
    "length rs = length rest"
    "\<forall>k < length rest.
        Inr (rs ! k) =
          fst (parse_single_article client json_loads
                 (title (rest ! k) @ [10] @ content (rest ! k)) (Suc i + k) document_context
                 (world_before client json_loads document_context (Suc i) rest w' k))"
    using Cons.IH[of "Suc i" "acc @ [j]" w'] by blast
  have "fst (parse_articles client json_loads document_context i (a # rest) acc w) =
          Inr (acc @ (j # rs))"
    using p rs(1) by simp
  moreover have "length (j # rs) = length (a # rest)"
    using rs(2) by simp
  moreover have "\<forall>k < length (a # rest).
      Inr ((j # rs) ! k) =
        fst (parse_single_article client json_loads
               (title ((a # rest) ! k) @ [10] @ content ((a # rest) ! k)) (i + k) document_context
               (world_before client json_loads document_context i (a # rest) w k))"
  proof (intro allI impI)
    fix k assume "k < length (a # rest)"
    then show "Inr ((j # rs) ! k) =
        fst (parse_single_article client json_loads
               (title ((a # rest) ! k) @ [10] @ content ((a # rest) ! k)) (i + k) document_context
               (world_before client json_loads document_context i (a # rest) w k))"
      using rs(3) p by (cases k) simp_all
  qed
  ultimately show ?case by blast
qed

text \<open>
  C1: every sequence of N units yields exactly N records. The loop does so whenever no
  collaborator call raises \<^verbatim>\<open>JSONDecodeError\<close> itself (\<open>parse_articles_one_to_one\<close>).
  When a call does, the handler of \<^verbatim>\<open>parse_single_article\<close> reads the unbound
  \<^verbatim>\<open>model_response\<close>, the \<^verbatim>\<open>UnboundLocalError\<close> leaves the loop, and the run of one unit
  yields no record list at all.
\<close>

theorem parse_docx_civil_code_aborts:
  "parse_docx_civil_code undecodable_client rejecting_loads []
     [\<lparr>title = [31532, 19968, 26465], content = []\<rparr>] () = (Inl UnboundLocalError, ())"
  by (simp add: parse_docx_civil_code_def parse_single_article_def try_block_def
      except_clauses_def undecodable_client_def)

text \<open>
  C6: the per-unit call never propagates an exception. Both branches of the taxonomy
  hold as stated (\<open>parse_single_article_invalid_json\<close>,
  \<open>parse_single_article_other_exception\<close>, \<open>parse_single_article_scenario\<close>), but a
  \<^verbatim>\<open>JSONDecodeError\<close> raised by the collaborator call itself selects the first handler
  before \<^verbatim>\<open>model_response\<close> is bound, and the call propagates \<^verbatim>\<open>UnboundLocalError\<close>.
\<close>

theorem parse_single_article_propagates:
  "parse_single_article undecodable_client rejecting_loads [31532, 19968, 26465, 10] 0 [] () =
     (Inl UnboundLocalError, ()) \<and>
   parse_single_article_pdf undecodable_client rejecting_loads [31532, 19968, 26465, 10] 0 () =
     (Inl UnboundLocalError, ())"
  by (simp add: parse_single_article_def parse_single_article_pdf_def try_block_def
      except_clauses_def undecodable_client_def)

section \<open>Facts about the character classes and the marker pattern\<close>

lemma not_numeral_simps [simp]:
  "\<not> is_numeral 31532" "\<not> is_numeral 26465" "\<not> is_numeral 10"
  by (simp_all add: is_numeral_def is_decimal_def decimal_ranges_def)

lemma not_space_simps [simp]:
  "\<not> is_space 31532" "\<not> is_space 26465" "is_space 10" "is_space 32"
  by (simp_all add: is_space_def)

lemma decimal_ranges_bounds:
  "list_all (\<lambda>(lo, hi). (48 \<le> lo \<and> hi \<le> 57) \<or> (1632 \<le> lo \<and> hi \<le> 4249) \<or>
                        (6112 \<le> lo \<and> hi \<le> 7257) \<or> 42528 \<le> lo) decimal_ranges"
  by (simp add: decimal_ranges_def)

lemma decimal_bounds:
  assumes "is_decimal c"
  shows "(48 \<le> c \<and> c \<le> 57) \<or> (1632 \<le> c \<and> c \<le> 4249) \<or> (6112 \<le> c \<and> c \<le> 7257) \<or> 42528 \<le> c"
proof -
  from assms obtain lo hi where m: "(lo, hi) \<in> set decimal_ranges" and c: "lo \<le> c" "c \<le> hi"
    by (auto simp: is_decimal_def list_ex_iff)
  from m decimal_ranges_bounds
  have "(48 \<le> lo \<and> hi \<le> 57) \<or> (1632 \<le> lo \<and> hi \<le> 4249) \<or> (6112 \<le> lo \<and> hi \<le> 7257) \<or> 42528 \<le> lo"
    by (auto simp: list_all_iff)
  with c show ?thesis by linarith
qed

lemma space_bounds:
  "is_space c \<Longrightarrow> c \<le> 32 \<or> c = 133 \<or> c = 160 \<or> c = 5760 \<or> (8192 \<le> c \<and> c \<le> 12288)"
  unfolding is_space_def by linarith

lemma decimal_not_space: "is_decimal c \<Longrightarrow> \<not> is_space c"
  using decimal_bounds[of c] space_bounds[of c] by linarith

lemma numeral_not_space: "is_numeral c \<Longrightarrow> \<not> is_space c"
  unfolding is_numeral_def
  by (auto simp: decimal_not_space) (simp_all add: is_space_def)

lemma match_marker_iff:
  "match_marker s = Some (m, r) \<longleftrightarrow>
     (\<exists>ns. ns \<noteq> [] \<and> list_all is_numeral ns \<and> m = 31532 # ns @ [26465] \<and> s = m @ r)"
proof
  assume a: "match_marker s = Some (m, r)"
  then obtain cs where s: "s = 31532 # cs"
    by (cases s) (auto simp: match_marker_def split: if_splits)
  from a s have d: "dropWhile is_numeral cs = 26465 # r" and t: "takeWhile is_numeral cs \<noteq> []"
    and m: "m = 31532 # takeWhile is_numeral cs @ [26465]"
    by (auto simp: match_marker_def split: list.splits if_splits)
  have "cs = takeWhile is_numeral cs @ dropWhile is_numeral cs" by simp
  with d have "s = m @ r" using s m by simp
  moreover have "list_all is_numeral (takeWhile is_numeral cs)"
    by (simp add: list_all_iff) (meson set_takeWhileD)
  ultimately show "\<exists>ns. ns \<noteq> [] \<and> list_all is_numeral ns \<and> m = 31532 # ns @ [26465] \<and> s = m @ r"
    using t m by blast
next
  assume "\<exists>ns. ns \<noteq> [] \<and> list_all is_numeral ns \<and> m = 31532 # ns @ [26465] \<and> s = m @ r"
  then obtain ns where ns: "ns \<noteq> []" "list_all is_numeral ns" and m: "m = 31532 # ns @ [26465]"
    and s: "s = m @ r" by blast
  have t: "takeWhile is_numeral (ns @ 26465 # r) = ns"
    using ns(2) by (simp add: list_all_iff)
  have d: "dropWhile is_numeral (ns @ 26465 # r) = 26465 # r"
    using ns(2) by (simp add: list_all_iff)
  show "match_marker s = Some (m, r)"
    using ns(1) by (simp add: s m match_marker_def t d)
qed

lemma marker_at_iff:
  "marker_at s \<longleftrightarrow>
     (\<exists>ns r. ns \<noteq> [] \<and> list_all is_numeral ns \<and> s = 31532 # ns @ 26465 # r)"
proof -
  have "marker_at s \<longleftrightarrow> (\<exists>m r. match_marker s = Some (m, r))"
    by (auto simp: marker_at_def)
  then show ?thesis
    by (auto simp: match_marker_iff)
qed

lemma marker_atD: "marker_at l \<Longrightarrow> \<exists>m r. match_marker l = Some (m, r)"
  by (cases "match_marker l") (auto simp: marker_at_def)

lemma not_marker_atD: "\<not> marker_at l \<Longrightarrow> match_marker l = None"
  unfolding marker_at_def by blast

lemma marker_atI: "match_marker l = Some p \<Longrightarrow> marker_at l"
  unfolding marker_at_def by simp

lemma marker_at_Nil [simp]: "\<not> marker_at []"
  by (simp add: marker_at_def match_marker_def)

lemma marker_at_hd: "marker_at (c # cs) \<Longrightarrow> c = 31532"
  by (auto simp: marker_at_iff)

lemma match_marker_append:
  "match_marker s = Some (m, r) \<Longrightarrow> match_marker (s @ z) = Some (m, r @ z)"
  by (auto simp: match_marker_iff)

lemma marker_at_append: "marker_at s \<Longrightarrow> marker_at (s @ z)"
  by (auto simp: marker_at_def dest: match_marker_append)

text \<open>A marker token holds no whitespace and no newline, and ends in a non-space.\<close>

lemma match_marker_token:
  assumes "match_marker s = Some (m, r)"
  shows "m \<noteq> []" and "\<forall>c \<in> set m. \<not> is_space c" and "10 \<notin> set m" and "last m = 26465"
    and "hd m = 31532" and "s = m @ r"
proof -
  from assms obtain ns where ns: "ns \<noteq> []" "list_all is_numeral ns"
    and m: "m = 31532 # ns @ [26465]" and s: "s = m @ r"
    by (auto simp: match_marker_iff)
  show "m \<noteq> []" "last m = 26465" "hd m = 31532" "s = m @ r" using m s by simp_all
  show "\<forall>c \<in> set m. \<not> is_space c"
    using ns(2) m by (auto simp: list_all_iff numeral_not_space)
  have "c \<noteq> 10" if "is_numeral c" for c using that by auto
  then show "10 \<notin> set m"
    using ns(2) m by (auto simp: list_all_iff)
qed

text \<open>A match lies before the first character that cannot belong to a marker.\<close>

lemma match_marker_append_stop:
  assumes "match_marker (l @ c # z) = Some (m, r')" and "\<not> is_numeral c" and "c \<noteq> 26465" and "c \<noteq> 31532"
  shows "\<exists>r. match_marker l = Some (m, r) \<and> r' = r @ c # z"
proof -
  from assms(1) obtain ns where ns: "ns \<noteq> []" "list_all is_numeral ns"
    and m: "m = 31532 # ns @ [26465]" and s: "l @ c # z = m @ r'"
    by (auto simp: match_marker_iff)
  have cm: "c \<notin> set m" using assms(2-4) ns(2) m by (auto simp: list_all_iff)
  from s obtain u where "(l = m @ u \<and> u @ c # z = r') \<or> (l @ u = m \<and> c # z = u @ r')"
    by (auto simp: append_eq_append_conv2)
  then show ?thesis
  proof
    assume "l = m @ u \<and> u @ c # z = r'"
    then show ?thesis using ns m by (auto simp: match_marker_iff)
  next
    assume a: "l @ u = m \<and> c # z = u @ r'"
    show ?thesis
    proof (cases u)
      case Nil
      with a show ?thesis using ns m by (auto simp: match_marker_iff)
    next
      case (Cons x xs)
      with a have "c \<in> set m" by auto
      with cm show ?thesis by simp
    qed
  qed
qed

lemma marker_at_append_stop:
  "\<not> is_numeral c \<Longrightarrow> c \<noteq> 26465 \<Longrightarrow> c \<noteq> 31532 \<Longrightarrow> marker_at (l @ c # z) = marker_at l"
proof
  assume a: "\<not> is_numeral c" "c \<noteq> 26465" "c \<noteq> 31532" and "marker_at (l @ c # z)"
  then obtain m r' where "match_marker (l @ c # z) = Some (m, r')"
    by (auto simp: marker_at_def)
  from match_marker_append_stop[OF this a] show "marker_at l"
    by (auto simp: marker_at_def)
next
  assume "marker_at l"
  then show "marker_at (l @ c # z)" by (rule marker_at_append)
qed

lemma marker_at_append_nl [simp]: "marker_at (l @ 10 # z) = marker_at l"
  by (rule marker_at_append_stop) simp_all

section \<open>Facts about stripping, splitting and joining\<close>

lemma lstrip_Nil [simp]: "lstrip [] = []"
  by (simp add: lstrip_def)

lemma rstrip_Nil [simp]: "rstrip [] = []"
  by (simp add: rstrip_def)

lemma strip_Nil [simp]: "strip [] = []"
  by (simp add: strip_def)

lemma rstrip_prefix: "\<exists>q. s = rstrip s @ q \<and> (\<forall>c \<in> set q. is_space c)"
proof -
  have "rev s = takeWhile is_space (rev s) @ dropWhile is_space (rev s)" by simp
  then have "s = rev (dropWhile is_space (rev s)) @ rev (takeWhile is_space (rev s))"
    by (metis rev_append rev_rev_ident)
  moreover have "\<forall>c \<in> set (rev (takeWhile is_space (rev s))). is_space c"
    by (auto dest: set_takeWhileD)
  ultimately show ?thesis unfolding rstrip_def by blast
qed

lemma lstrip_suffix: "\<exists>w. s = w @ lstrip s \<and> (\<forall>c \<in> set w. is_space c)"
proof -
  have "s = takeWhile is_space s @ dropWhile is_space s" by simp
  moreover have "\<forall>c \<in> set (takeWhile is_space s). is_space c"
    by (auto dest: set_takeWhileD)
  ultimately show ?thesis unfolding lstrip_def by blast
qed

lemma strip_decomp:
  "\<exists>w q. s = w @ strip s @ q \<and> (\<forall>c \<in> set w. is_space c) \<and> (\<forall>c \<in> set q. is_space c)"
proof -
  obtain q where q: "s = rstrip s @ q" "\<forall>c \<in> set q. is_space c"
    using rstrip_prefix by blast
  obtain w where w: "rstrip s = w @ lstrip (rstrip s)" "\<forall>c \<in> set w. is_space c"
    using lstrip_suffix by blast
  have "s = w @ strip s @ q"
    using q(1) w(1) unfolding strip_def by (metis append.assoc)
  with q(2) w(2) show ?thesis by blast
qed

lemma rstrip_all_space: "\<forall>c \<in> set s. is_space c \<Longrightarrow> rstrip s = []"
  by (simp add: rstrip_def)

lemma rstrip_append_keep:
  "xs \<noteq> [] \<Longrightarrow> \<not> is_space (last xs) \<Longrightarrow> rstrip (xs @ ys) = xs @ rstrip ys"
proof -
  assume a: "xs \<noteq> []" "\<not> is_space (last xs)"
  have "dropWhile is_space (rev ys @ rev xs) =
          (if \<forall>c \<in> set (rev ys). is_space c then dropWhile is_space (rev xs)
           else dropWhile is_space (rev ys) @ rev xs)"
    by (auto simp: dropWhile_append)
  moreover have "dropWhile is_space (rev xs) = rev xs"
    using a by (cases xs rule: rev_cases) simp_all
  ultimately show ?thesis
    by (auto simp: rstrip_def)
qed

lemma lstrip_keep: "s \<noteq> [] \<Longrightarrow> \<not> is_space (hd s) \<Longrightarrow> lstrip s = s"
  by (cases s) (simp_all add: lstrip_def)

lemma lstrip_space_Cons: "is_space c \<Longrightarrow> lstrip (c # s) = lstrip s"
  by (simp add: lstrip_def)

lemma rstrip_space_snoc: "is_space c \<Longrightarrow> rstrip (s @ [c]) = rstrip s"
  by (simp add: rstrip_def)

lemma lstrip_idem [simp]: "lstrip (lstrip s) = lstrip s"
  unfolding lstrip_def by (simp add: dropWhile_idem)

lemma rstrip_idem [simp]: "rstrip (rstrip s) = rstrip s"
  unfolding rstrip_def by (simp add: dropWhile_idem)

lemma rstrip_ends: "rstrip s \<noteq> [] \<Longrightarrow> \<not> is_space (last (rstrip s))"
proof -
  assume "rstrip s \<noteq> []"
  then have "dropWhile is_space (rev s) \<noteq> []" by (simp add: rstrip_def)
  then have "\<not> is_space (hd (dropWhile is_space (rev s)))" by (rule hd_dropWhile)
  then show ?thesis
    using \<open>dropWhile is_space (rev s) \<noteq> []\<close> by (simp add: rstrip_def last_rev)
qed

lemma lstrip_starts: "lstrip s \<noteq> [] \<Longrightarrow> \<not> is_space (hd (lstrip s))"
  unfolding lstrip_def by (rule hd_dropWhile)

lemma rstrip_lstrip_commute: "rstrip (lstrip s) = lstrip (rstrip s)"
proof (cases "\<forall>c \<in> set s. is_space c")
  case True
  then have "lstrip s = []" "rstrip s = []" by (simp_all add: lstrip_def rstrip_def)
  then show ?thesis by simp
next
  case False
  obtain w where w: "s = w @ lstrip s" "\<forall>c \<in> set w. is_space c" using lstrip_suffix by blast
  from False w have ne: "lstrip s \<noteq> []" by auto
  then have hs: "\<not> is_space (hd (lstrip s))" by (rule lstrip_starts)
  obtain q where q: "lstrip s = rstrip (lstrip s) @ q" "\<forall>c \<in> set q. is_space c"
    using rstrip_prefix by blast
  from ne hs q have ne2: "rstrip (lstrip s) \<noteq> []"
    by (metis append_Nil hd_in_set)
  then have le: "\<not> is_space (last (rstrip (lstrip s)))" by (rule rstrip_ends)
  have hd2: "hd (rstrip (lstrip s)) = hd (lstrip s)"
    using q(1) ne2 by (metis hd_append2)
  have "s = (w @ rstrip (lstrip s)) @ q" using w(1) q(1) by (metis append.assoc)
  then have "rstrip s = rstrip ((w @ rstrip (lstrip s)) @ q)" by simp
  also have "\<dots> = (w @ rstrip (lstrip s)) @ rstrip q"
    using ne2 le by (subst rstrip_append_keep) simp_all
  also have "rstrip q = []" using q(2) by (rule rstrip_all_space)
  finally have r: "rstrip s = w @ rstrip (lstrip s)" by simp
  have "lstrip (w @ rstrip (lstrip s)) = rstrip (lstrip s)"
    using w(2) ne2 hs hd2 unfolding lstrip_def
    by (simp add: dropWhile_append3 dropWhile_append) (metis dropWhile_eq_self_iff list.collapse dropWhile.simps(2))
  with r show ?thesis by simp
qed

lemma strip_idem [simp]: "strip (strip s) = strip s"
  unfolding strip_def
  by (metis lstrip_idem rstrip_idem rstrip_lstrip_commute)

lemma strip_lstrip: "strip (lstrip s) = strip s"
  unfolding strip_def
  by (metis lstrip_idem rstrip_lstrip_commute)

lemma strip_space_Cons: "is_space c \<Longrightarrow> strip (c # s) = strip s"
  unfolding strip_def
  by (metis lstrip_space_Cons rstrip_lstrip_commute)

lemma strip_space_snoc: "is_space c \<Longrightarrow> strip (s @ [c]) = strip s"
  unfolding strip_def by (simp add: rstrip_space_snoc)

lemma strip_all_space: "\<forall>c \<in> set s. is_space c \<Longrightarrow> strip s = []"
  by (simp add: strip_def rstrip_all_space)

lemma strip_empty_iff: "strip s = [] \<longleftrightarrow> (\<forall>c \<in> set s. is_space c)"
proof
  assume "strip s = []"
  with strip_decomp[of s] show "\<forall>c \<in> set s. is_space c" by auto
qed (rule strip_all_space)

text \<open>Splitting at newlines.\<close>

lemma split_nl_not_Nil [simp]: "split_nl s \<noteq> []"
  by (induction s) (auto split: list.splits)

lemma split_nl_no_nl: "10 \<notin> set s \<Longrightarrow> split_nl s = [s]"
  by (induction s) (auto split: list.splits)

lemma split_nl_append:
  "10 \<notin> set l \<Longrightarrow> split_nl (l @ 10 # rest) = l # split_nl rest"
  by (induction l) (auto split: list.splits)

lemma split_nl_lines: "l \<in> set (split_nl s) \<Longrightarrow> 10 \<notin> set l"
proof (induction s arbitrary: l)
  case Nil
  then show ?case by simp
next
  case (Cons c cs)
  show ?case
  proof (cases "c = 10")
    case True
    with Cons show ?thesis by auto
  next
    case False
    obtain x xs where x: "split_nl cs = x # xs"
      by (cases "split_nl cs") simp_all
    with Cons False show ?thesis by auto
  qed
qed

lemma join_split_nl [simp]: "join_nl (split_nl s) = s"
proof (induction s)
  case Nil
  show ?case by simp
next
  case (Cons c cs)
  obtain x xs where x: "split_nl cs = x # xs"
    by (cases "split_nl cs") simp_all
  show ?case
  proof (cases "c = 10")
    case True
    with Cons x show ?thesis by simp
  next
    case False
    with Cons x show ?thesis by (cases xs) simp_all
  qed
qed

lemma join_nl_Cons: "ls \<noteq> [] \<Longrightarrow> join_nl (l # ls) = l @ 10 # join_nl ls"
  by (cases ls) simp_all

lemma content_lines_Nil [simp]: "content_lines [] = []"
  by (simp add: content_lines_def)

lemma split_nl_append_gen:
  "split_nl (a @ 10 # b) = split_nl a @ split_nl b"
proof (induction a)
  case Nil
  show ?case by simp
next
  case (Cons c cs)
  obtain x xs where x: "split_nl cs = x # xs"
    by (cases "split_nl cs") simp_all
  with Cons show ?case by auto
qed

lemma content_lines_append:
  "content_lines (a @ 10 # b) = content_lines a @ content_lines b"
  by (simp add: content_lines_def split_nl_append_gen)

lemma content_lines_line:
  "10 \<notin> set l \<Longrightarrow> content_lines l = (if strip l = [] then [] else [strip l])"
  by (simp add: content_lines_def split_nl_no_nl)

lemma strip_no_nl: "10 \<notin> set l \<Longrightarrow> 10 \<notin> set (strip l)"
  using strip_decomp[of l] by (metis Un_iff set_append)

section \<open>Where markers stand in a normalized text\<close>

lemma marker_free_suffix: "marker_free (a @ b) \<Longrightarrow> marker_free b"
  by (induction a) simp_all

lemma marker_free_no_marker: "marker_free s \<Longrightarrow> \<not> marker_at s"
  by (cases s) simp_all

lemma marker_free_at: "marker_free s \<Longrightarrow> s = a @ b \<Longrightarrow> \<not> marker_at b"
  using marker_free_suffix marker_free_no_marker by blast

lemma mid_free_at: "mid_free l \<Longrightarrow> l = w @ b \<Longrightarrow> w \<noteq> [] \<Longrightarrow> \<not> marker_at b"
proof -
  assume a: "mid_free l" "l = w @ b" "w \<noteq> []"
  then obtain c w' where "w = c # w'" by (cases w) auto
  with a have "marker_free (w' @ b)" by (simp add: mid_free_def)
  then show ?thesis by (rule marker_free_at) simp
qed

lemma mid_free_Nil [simp]: "mid_free []"
  by (simp add: mid_free_def)

lemma marker_at_Cons_iff:
  "marker_at (c # x) \<longleftrightarrow>
     c = 31532 \<and> takeWhile is_numeral x \<noteq> [] \<and> (\<exists>r. dropWhile is_numeral x = 26465 # r)"
proof
  assume "marker_at (c # x)"
  then obtain ns r where ns: "ns \<noteq> []" "list_all is_numeral ns" and e: "c # x = 31532 # ns @ 26465 # r"
    by (auto simp: marker_at_iff)
  have "takeWhile is_numeral (ns @ 26465 # r) = ns" "dropWhile is_numeral (ns @ 26465 # r) = 26465 # r"
    using ns(2) by (simp_all add: list_all_iff)
  with ns(1) e show "c = 31532 \<and> takeWhile is_numeral x \<noteq> [] \<and> (\<exists>r. dropWhile is_numeral x = 26465 # r)"
    by simp
next
  assume a: "c = 31532 \<and> takeWhile is_numeral x \<noteq> [] \<and> (\<exists>r. dropWhile is_numeral x = 26465 # r)"
  then obtain r where r: "dropWhile is_numeral x = 26465 # r" by blast
  have "x = takeWhile is_numeral x @ dropWhile is_numeral x" by simp
  with r have "c # x = 31532 # takeWhile is_numeral x @ 26465 # r" using a by simp
  moreover have "list_all is_numeral (takeWhile is_numeral x)"
    by (simp add: list_all_iff) (meson set_takeWhileD)
  ultimately show "marker_at (c # x)"
    using a unfolding marker_at_iff by blast
qed

lemma nl_before_tl: "nl_before (a @ b) \<Longrightarrow> nl_before b"
  by (induction a) simp_all

lemma nl_before_prefix: "nl_before (p @ q) \<Longrightarrow> nl_before p"
proof (induction p)
  case Nil
  show ?case by simp
next
  case (Cons c p)
  then show ?case
    using marker_at_append[of p q] by auto
qed

lemma nl_before_strip: "nl_before s \<Longrightarrow> nl_before (strip s)"
proof -
  assume a: "nl_before s"
  obtain w q where "s = w @ strip s @ q" using strip_decomp by blast
  with a have "nl_before (strip s @ q)" by (metis nl_before_tl)
  then show ?thesis by (rule nl_before_prefix)
qed

text \<open>Inserting newlines changes neither the run of class characters at the start of a
  text nor whether U+6761 follows that run.\<close>

lemma takeWhile_insert_newlines:
  "takeWhile is_numeral (insert_newlines s) = takeWhile is_numeral s"
proof (induction s rule: insert_newlines.induct)
  case 1
  show ?case by simp
next
  case (2 c cs)
  show ?case
  proof (cases "match_marker (c # cs)")
    case None
    with 2 show ?thesis by simp
  next
    case (Some p)
    then obtain m r where p: "p = (m, r)" by (cases p) auto
    with Some have "marker_at (c # cs)" by (simp add: marker_at_def)
    then have "c = 31532" by (rule marker_at_hd)
    with Some p show ?thesis by simp
  qed
qed

lemma dropWhile_insert_newlines:
  "(\<exists>r. dropWhile is_numeral (insert_newlines s) = 26465 # r) \<longleftrightarrow>
   (\<exists>r. dropWhile is_numeral s = 26465 # r)"
proof (induction s rule: insert_newlines.induct)
  case 1
  show ?case by simp
next
  case (2 c cs)
  show ?case
  proof (cases "match_marker (c # cs)")
    case None
    with 2 show ?thesis by simp
  next
    case (Some p)
    then obtain m r where p: "p = (m, r)" by (cases p) auto
    with Some have "marker_at (c # cs)" by (simp add: marker_at_def)
    then have "c = 31532" by (rule marker_at_hd)
    with Some p show ?thesis by simp
  qed
qed

lemma marker_at_Cons_insert_newlines:
  "marker_at (c # insert_newlines s) = marker_at (c # s)"
  by (simp add: marker_at_Cons_iff takeWhile_insert_newlines dropWhile_insert_newlines)

text \<open>The output of the insertion never starts with a marker: a marker at the start of
  the input has got its newline.\<close>

lemma not_marker_at_insert_newlines: "\<not> marker_at (insert_newlines s)"
proof (cases s)
  case Nil
  then show ?thesis by simp
next
  case (Cons c cs)
  show ?thesis
  proof (cases "match_marker (c # cs)")
    case None
    then have "\<not> marker_at (c # cs)" by (simp add: marker_at_def)
    then have "\<not> marker_at (c # insert_newlines cs)"
      by (simp add: marker_at_Cons_insert_newlines)
    with None Cons show ?thesis by simp
  next
    case (Some p)
    then obtain m r where p: "p = (m, r)" by (cases p) auto
    have "\<not> marker_at (10 # m @ insert_newlines r)"
      by (auto dest: marker_at_hd)
    with Some p Cons show ?thesis by simp
  qed
qed

lemma nl_before_token:
  assumes "match_marker s = Some (m, r)" and "nl_before y" and "\<not> marker_at y"
  shows "nl_before (m @ y)"
proof -
  from assms(1) obtain ns where ns: "list_all is_numeral ns" and m: "m = 31532 # ns @ [26465]"
    by (auto simp: match_marker_iff)
  have a: "nl_before (26465 # y)" using assms(2,3) by simp
  have b: "nl_before (ns' @ 26465 # y) \<and> \<not> marker_at (ns' @ 26465 # y)"
    if "list_all is_numeral ns'" for ns'
    using that
  proof (induction ns')
    case Nil
    show ?case using a by (auto dest: marker_at_hd)
  next
    case (Cons n ns')
    then have "is_numeral n" by simp
    then have "n \<noteq> 31532" by auto
    with Cons show ?case by (auto dest: marker_at_hd)
  qed
  show ?thesis
    using b[OF ns] m by simp
qed

lemma nl_before_insert_newlines: "nl_before (insert_newlines s)"
proof (induction s rule: insert_newlines.induct)
  case 1
  show ?case by simp
next
  case (2 c cs)
  show ?case
  proof (cases "match_marker (c # cs)")
    case None
    with 2 show ?thesis by (simp add: not_marker_at_insert_newlines)
  next
    case (Some p)
    then obtain m r where p: "p = (m, r)" by (cases p) auto
    with Some have mm: "match_marker (c # cs) = Some (m, r)" by simp
    have "nl_before (insert_newlines r)" using 2(2)[OF Some p[symmetric]] .
    then have "nl_before (m @ insert_newlines r)"
      using nl_before_token[OF mm] not_marker_at_insert_newlines by blast
    with mm show ?thesis by simp
  qed
qed

lemma nl_before_clean_pdf_text: "nl_before (clean_pdf_text text)"
  unfolding clean_pdf_text_def by (rule nl_before_strip) (rule nl_before_insert_newlines)

text \<open>In a text with that property a marker can only stand at the start of a line.\<close>

lemma split_nl_hd_prefix: "\<exists>z. s = hd (split_nl s) @ z"
proof (induction s)
  case Nil
  show ?case by simp
next
  case (Cons c cs)
  obtain x xs where x: "split_nl cs = x # xs"
    by (cases "split_nl cs") simp_all
  with Cons show ?case by auto
qed

lemma nl_before_lines: "nl_before s \<Longrightarrow> l \<in> set (split_nl s) \<Longrightarrow> mid_free l"
proof (induction s arbitrary: l)
  case Nil
  then show ?case by simp
next
  case (Cons c cs)
  obtain x xs where x: "split_nl cs = x # xs"
    by (cases "split_nl cs") simp_all
  from Cons.prems(1) have nb: "nl_before cs" by simp
  show ?case
  proof (cases "c = 10")
    case True
    with Cons.prems(2) have "l = [] \<or> l \<in> set (split_nl cs)" by auto
    then show ?thesis using Cons.IH[OF nb] by auto
  next
    case False
    with Cons.prems(1) have nm: "\<not> marker_at cs" by simp
    from False x Cons.prems(2) have "l = c # x \<or> l \<in> set xs" by auto
    then show ?thesis
    proof
      assume l: "l = c # x"
      have mx: "mid_free x" using Cons.IH[OF nb] x by simp
      obtain z where "cs = x @ z" using split_nl_hd_prefix[of cs] x by auto
      with nm have "\<not> marker_at x" using marker_at_append by blast
      with mx have "marker_free x" by (cases x) (simp_all add: mid_free_def)
      with l show ?thesis by (simp add: mid_free_def)
    next
      assume "l \<in> set xs"
      then show ?thesis using Cons.IH[OF nb] x by simp
    qed
  qed
qed

section \<open>The line-oriented segmenter on normalized text\<close>

lemma pdf_step_acc:
  "pdf_step (arts, cur) raw = (arts @ fst (pdf_step ([], cur) raw), snd (pdf_step ([], cur) raw))"
  by (simp add: pdf_step_def Let_def)

lemma pdf_fold_acc:
  "flush (foldl pdf_step (arts, cur) ls) = arts @ pdf_from cur ls"
proof (induction ls arbitrary: arts cur)
  case Nil
  show ?case by (simp add: pdf_from_def flush_def)
next
  case (Cons raw ls)
  obtain e n where s: "pdf_step ([], cur) raw = (e, n)"
    by (cases "pdf_step ([], cur) raw") auto
  have "flush (foldl pdf_step (arts, cur) (raw # ls)) = flush (foldl pdf_step (arts @ e, n) ls)"
    using pdf_step_acc[of arts cur raw] s by simp
  also have "\<dots> = (arts @ e) @ pdf_from n ls" by (rule Cons.IH)
  also have "pdf_from cur (raw # ls) = e @ pdf_from n ls"
    using Cons.IH[of e n] s by (simp add: pdf_from_def)
  then have "(arts @ e) @ pdf_from n ls = arts @ pdf_from cur (raw # ls)" by simp
  finally show ?case .
qed

lemma pdf_from_Nil: "pdf_from cur [] = (if title cur \<noteq> [] then [cur] else [])"
  by (simp add: pdf_from_def flush_def)

lemma pdf_from_Cons:
  "pdf_from cur (raw # ls) =
     (if strip raw = [] then pdf_from cur ls
      else if marker_at (strip raw) then
        (if title cur \<noteq> [] then [cur] else []) @ pdf_from \<lparr>title = strip raw, content = []\<rparr> ls
      else if title cur \<noteq> [] then pdf_from (add_line (strip raw) cur) ls
      else pdf_from cur ls)"
proof -
  have "pdf_from cur (raw # ls) = flush (foldl pdf_step (pdf_step ([], cur) raw) ls)"
    by (simp add: pdf_from_def)
  then show ?thesis
    by (simp add: pdf_step_def Let_def pdf_fold_acc)
qed

lemma segment_lines_pdf_from: "segment_lines ls = pdf_from empty_article ls"
  by (simp add: segment_lines_def pdf_from_def)

lemma title_add_line [simp]: "title (add_line line cur) = title cur"
  by (simp add: add_line_def)

text \<open>Stripping a line keeps a marker at its start, and on a line without a marker after
  its first position it cannot bring one to the start.\<close>

lemma match_marker_strip:
  assumes "match_marker l = Some (m, r)"
  shows "match_marker (strip l) = Some (m, rstrip r)"
proof -
  note t = match_marker_token[OF assms]
  have "rstrip l = m @ rstrip r"
    using t(1,2,6) by (simp add: rstrip_append_keep)
  moreover have "lstrip (m @ rstrip r) = m @ rstrip r"
    using t(1,2) by (intro lstrip_keep) (auto simp: hd_append)
  ultimately have "strip l = m @ rstrip r" by (simp add: strip_def)
  moreover from assms have "match_marker (m @ rstrip r) = Some (m, rstrip r)"
    by (auto simp: match_marker_iff)
  ultimately show ?thesis by simp
qed

lemma marker_at_strip:
  assumes "mid_free l"
  shows "marker_at (strip l) = marker_at l"
proof
  assume "marker_at l"
  then obtain m r where "match_marker l = Some (m, r)" using marker_atD by blast
  then have "match_marker (strip l) = Some (m, rstrip r)" by (rule match_marker_strip)
  then show "marker_at (strip l)" by (rule marker_atI)
next
  assume a: "marker_at (strip l)"
  obtain w q where d: "l = w @ strip l @ q" using strip_decomp by blast
  from a have b: "marker_at (strip l @ q)" by (rule marker_at_append)
  show "marker_at l"
  proof (cases w)
    case Nil
    with d b show ?thesis by simp
  next
    case (Cons c w')
    then have "w \<noteq> []" by simp
    from mid_free_at[OF assms d this] b show ?thesis by simp
  qed
qed

lemma marker_token_strip: "marker_at l \<Longrightarrow> marker_token (strip l) = marker_token l"
proof -
  assume "marker_at l"
  then obtain m r where m: "match_marker l = Some (m, r)" using marker_atD by blast
  then have "match_marker (strip l) = Some (m, rstrip r)" by (rule match_marker_strip)
  with m show ?thesis by (simp add: marker_token_def)
qed

lemma marker_at_not_blank: "marker_at l \<Longrightarrow> strip l \<noteq> []"
proof
  assume "marker_at l" "strip l = []"
  then obtain m r where "match_marker l = Some (m, r)" using marker_atD by blast
  from match_marker_strip[OF this] \<open>strip l = []\<close> show False
    by (simp add: match_marker_def)
qed

text \<open>The titles of the units are the trimmed marker lines, in order.\<close>

lemma pdf_from_titles:
  assumes "\<forall>l \<in> set ls. mid_free l"
  shows "map title (pdf_from cur ls) =
           (if title cur \<noteq> [] then [title cur] else []) @ map strip (filter marker_at ls)"
  using assms
proof (induction ls arbitrary: cur)
  case Nil
  show ?case by (simp add: pdf_from_Nil)
next
  case (Cons raw ls)
  then have m: "marker_at (strip raw) = marker_at raw" by (simp add: marker_at_strip)
  have ih: "map title (pdf_from c ls) =
           (if title c \<noteq> [] then [title c] else []) @ map strip (filter marker_at ls)" for c
    using Cons by simp
  show ?case
  proof (cases "marker_at raw")
    case True
    then have "strip raw \<noteq> []" by (rule marker_at_not_blank)
    with True m show ?thesis by (simp add: pdf_from_Cons ih)
  next
    case False
    with m show ?thesis by (simp add: pdf_from_Cons ih)
  qed
qed

text \<open>The markers of a text, line by line.\<close>

lemma find_markers_marker_free: "marker_free s \<Longrightarrow> find_markers s = []"
proof (induction s)
  case Nil
  show ?case by simp
next
  case (Cons c cs)
  then have "match_marker (c # cs) = None" "find_markers cs = []"
    by (simp_all add: not_marker_atD)
  then show ?case by simp
qed

lemma match_marker_append_nl:
  "match_marker (l @ 10 # z) = map_option (\<lambda>(m, r). (m, r @ 10 # z)) (match_marker l)"
proof (cases "match_marker (l @ 10 # z)")
  case None
  then have "\<not> marker_at (l @ 10 # z)" by (simp add: marker_at_def)
  then have "\<not> marker_at l" by simp
  then have "match_marker l = None" by (rule not_marker_atD)
  with None show ?thesis by simp
next
  case (Some p)
  obtain m r' where p: "p = (m, r')" by (cases p) auto
  with Some have "match_marker (l @ 10 # z) = Some (m, r')" by simp
  from match_marker_append_stop[OF this] obtain r where "match_marker l = Some (m, r)" "r' = r @ 10 # z"
    by auto
  with Some p show ?thesis by simp
qed

lemma find_markers_append_nl:
  "find_markers (l @ 10 # z) = find_markers l @ find_markers z"
proof (induction l rule: find_markers.induct)
  case 1
  have "match_marker (10 # z) = None" by (simp add: match_marker_def)
  then show ?case by simp
next
  case (2 c cs)
  show ?case
  proof (cases "match_marker (c # cs)")
    case None
    then have "match_marker ((c # cs) @ 10 # z) = None"
      by (simp only: match_marker_append_nl) simp
    with None 2(1) show ?thesis by simp
  next
    case (Some p)
    obtain m r where p: "p = (m, r)" by (cases p) auto
    have "match_marker ((c # cs) @ 10 # z) = Some (m, r @ 10 # z)"
      using Some p by (simp only: match_marker_append_nl) simp
    moreover have "find_markers (r @ 10 # z) = find_markers r @ find_markers z"
      using 2(2)[OF Some p[symmetric]] .
    ultimately show ?thesis using Some p by simp
  qed
qed

lemma find_markers_mid_free:
  assumes "mid_free l"
  shows "find_markers l = (case marker_token l of Some m \<Rightarrow> [m] | None \<Rightarrow> [])"
proof (cases l)
  case Nil
  then show ?thesis by (simp add: marker_token_def match_marker_def)
next
  case (Cons c cs)
  with assms have mf: "marker_free cs" by (simp add: mid_free_def)
  show ?thesis
  proof (cases "match_marker (c # cs)")
    case None
    with mf Cons show ?thesis by (simp add: find_markers_marker_free marker_token_def)
  next
    case (Some p)
    obtain m r where p: "p = (m, r)" by (cases p) auto
    with Some have "c # cs = m @ r" "m \<noteq> []" by (auto simp: match_marker_iff)
    then obtain m' where "cs = m' @ r" by (cases m) auto
    with mf have "marker_free r" using marker_free_suffix by blast
    with Some p Cons show ?thesis by (simp add: find_markers_marker_free marker_token_def)
  qed
qed

lemma find_markers_join:
  assumes "\<forall>l \<in> set ls. mid_free l"
  shows "map Some (find_markers (join_nl ls)) = map marker_token (filter marker_at ls)"
  using assms
proof (induction ls rule: join_nl.induct)
  case 1
  show ?case by simp
next
  case (2 l)
  then have "mid_free l" by simp
  then show ?case
    by (auto simp: find_markers_mid_free marker_token_def marker_at_def split: option.splits)
next
  case (3 l l' ls)
  then have "mid_free l" by simp
  then have "map Some (find_markers l) = map marker_token (filter marker_at [l])"
    by (auto simp: find_markers_mid_free marker_token_def marker_at_def split: option.splits)
  moreover have "map Some (find_markers (join_nl (l' # ls))) = map marker_token (filter marker_at (l' # ls))"
    using 3 by simp
  ultimately show ?case
    by (simp add: find_markers_append_nl del: join_nl.simps(3)) (simp add: find_markers_append_nl)
qed

lemma pdf_units_markers:
  "map (\<lambda>u. marker_token (title u)) (extract_articles_from_pdf text) =
     map Some (find_markers (clean_pdf_text text))"
proof -
  let ?t = "clean_pdf_text text"
  have mf: "\<forall>l \<in> set (split_nl ?t). mid_free l"
    using nl_before_lines[OF nl_before_clean_pdf_text] by blast
  have "map title (extract_articles_from_pdf text) = map strip (filter marker_at (split_nl ?t))"
    using pdf_from_titles[OF mf, of empty_article]
    by (simp add: extract_articles_from_pdf_def segment_lines_pdf_from empty_article_def)
  then have "map (\<lambda>u. marker_token (title u)) (extract_articles_from_pdf text) =
               map (\<lambda>l. marker_token (strip l)) (filter marker_at (split_nl ?t))"
    by (metis (no_types, lifting) map_map map_eq_conv o_apply)
  also have "\<dots> = map marker_token (filter marker_at (split_nl ?t))"
    by (rule map_cong) (auto simp: marker_token_strip)
  also have "\<dots> = map Some (find_markers (join_nl (split_nl ?t)))"
    using find_markers_join[OF mf] by simp
  finally show ?thesis by simp
qed

lemma pdf_units_titled: "list_all (\<lambda>u. title u \<noteq> []) (extract_articles_from_pdf text)"
proof -
  let ?t = "clean_pdf_text text"
  have mf: "\<forall>l \<in> set (split_nl ?t). mid_free l"
    using nl_before_lines[OF nl_before_clean_pdf_text] by blast
  have "map title (extract_articles_from_pdf text) = map strip (filter marker_at (split_nl ?t))"
    using pdf_from_titles[OF mf, of empty_article]
    by (simp add: extract_articles_from_pdf_def segment_lines_pdf_from empty_article_def)
  moreover have "\<forall>x \<in> set (map strip (filter marker_at (split_nl ?t))). x \<noteq> []"
    by (auto dest: marker_at_not_blank)
  ultimately have "\<forall>x \<in> set (map title (extract_articles_from_pdf text)). x \<noteq> []" by simp
  then show ?thesis by (simp add: list_all_iff)
qed

section \<open>The regex split on normalized text\<close>

lemma cut_not_Nil [simp]: "cut_before_markers s \<noteq> []"
  by (induction s) (auto split: list.splits)

lemma cut_Cons:
  "cut_before_markers cs = g # gs \<Longrightarrow>
     cut_before_markers (c # cs) = (if marker_at cs then [c] # g # gs else (c # g) # gs)"
  by simp

lemma cut_marker_free:
  assumes "marker_free l" and "cut_before_markers rest = g # gs"
  shows "cut_before_markers (l @ 10 # rest) =
           (if marker_at rest then (l @ [10]) # g # gs else (l @ 10 # g) # gs)"
  using assms(1)
proof (induction l)
  case Nil
  show ?case using assms(2) by simp
next
  case (Cons c l)
  then have "marker_free l" by simp
  then have nm: "\<not> marker_at (l @ 10 # rest)" by (simp add: marker_free_no_marker)
  show ?case
    using Cons.IH[OF \<open>marker_free l\<close>] nm by (simp del: marker_at_append_nl)
qed

lemma cut_line:
  assumes "mid_free l" and "cut_before_markers rest = g # gs"
  shows "cut_before_markers (l @ 10 # rest) =
           (if marker_at rest then (l @ [10]) # g # gs else (l @ 10 # g) # gs)"
proof (cases l)
  case Nil
  then show ?thesis using assms(2) by simp
next
  case (Cons c l')
  with assms(1) have mf: "marker_free l'" by (simp add: mid_free_def)
  then have nm: "\<not> marker_at (l' @ 10 # rest)" by (simp add: marker_free_no_marker)
  show ?thesis
    using cut_marker_free[OF mf assms(2)] nm Cons by (simp del: marker_at_append_nl)
qed

lemma cut_marker_free_last: "marker_free l \<Longrightarrow> cut_before_markers l = [l]"
proof (induction l)
  case Nil
  show ?case by simp
next
  case (Cons c l)
  then have "cut_before_markers l = [l]" "\<not> marker_at l"
    by (simp_all add: marker_free_no_marker)
  then show ?case by simp
qed

lemma cut_last_line: "mid_free l \<Longrightarrow> cut_before_markers l = [l]"
proof (cases l)
  case Nil
  then show ?thesis by simp
next
  case (Cons c l')
  assume "mid_free l"
  with Cons have mf: "marker_free l'" by (simp add: mid_free_def)
  then have "cut_before_markers l' = [l']" "\<not> marker_at l'"
    by (simp_all add: cut_marker_free_last marker_free_no_marker)
  with Cons show ?thesis by simp
qed

text \<open>Every piece after the first starts with U+7B2C, and so does the first when the
  text starts with a marker: none of them is blank.\<close>

lemma cut_heads:
  "cut_before_markers s = g # gs \<Longrightarrow>
     (\<forall>x \<in> set gs. x \<noteq> [] \<and> hd x = 31532) \<and> (marker_at s \<longrightarrow> g \<noteq> [] \<and> hd g = 31532)"
proof (induction s arbitrary: g gs)
  case Nil
  then show ?case by simp
next
  case (Cons c cs)
  obtain g' gs' where c: "cut_before_markers cs = g' # gs'"
    by (cases "cut_before_markers cs") simp_all
  note ih = Cons.IH[OF c]
  show ?case
  proof (cases "marker_at cs")
    case True
    with c Cons.prems have "g = [c]" "gs = g' # gs'" by simp_all
    with ih True show ?thesis by (auto dest: marker_at_hd)
  next
    case False
    with c Cons.prems have "g = c # g'" "gs = gs'" by simp_all
    with ih show ?thesis by (auto dest: marker_at_hd)
  qed
qed

lemma strip_not_blank: "x \<noteq> [] \<Longrightarrow> \<not> is_space (hd x) \<Longrightarrow> strip x \<noteq> []"
  by (cases x) (auto simp: strip_empty_iff)

lemma strip_marker_head: "x \<noteq> [] \<Longrightarrow> hd x = 31532 \<Longrightarrow> strip x \<noteq> []"
  by (rule strip_not_blank) simp_all

lemma cut_tail_not_blank:
  "cut_before_markers s = g # gs \<Longrightarrow> filter (\<lambda>art. strip art \<noteq> []) gs = gs"
proof -
  assume "cut_before_markers s = g # gs"
  from cut_heads[OF this] have "\<forall>x \<in> set gs. strip x \<noteq> []"
    using strip_marker_head by blast
  then show ?thesis by (simp add: filter_id_conv)
qed

lemma cut_head_not_blank:
  "cut_before_markers s = g # gs \<Longrightarrow> marker_at s \<Longrightarrow> strip g \<noteq> []"
proof -
  assume a: "cut_before_markers s = g # gs" "marker_at s"
  from cut_heads[OF a(1)] a(2) show ?thesis
    using strip_marker_head by blast
qed

text \<open>The lines of a unit are the lines of its title and of its content.\<close>

lemma unit_lines_eq: "unit_lines u = content_lines (title u) @ content_lines (content u)"
  by (simp add: unit_lines_def unit_text_def content_lines_append)

lemma content_lines_strip_line: "10 \<notin> set l \<Longrightarrow> content_lines (strip l) = content_lines l"
  by (simp add: content_lines_line strip_no_nl)

lemma unit_lines_add_line:
  "unit_lines (add_line line cur) = unit_lines cur @ content_lines line"
  by (simp add: unit_lines_eq add_line_def content_lines_append)

lemma unit_lines_new: "unit_lines \<lparr>title = t, content = []\<rparr> = content_lines t"
  by (simp add: unit_lines_eq)

lemma content_lines_blank: "10 \<notin> set l \<Longrightarrow> strip l = [] \<Longrightarrow> content_lines l = []"
  by (simp add: content_lines_line)

lemma content_lines_snoc_nl: "content_lines (l @ [10]) = content_lines l"
  using content_lines_append[of l "[]"] by simp

text \<open>The units of the state machine against the pieces of the regex split, for lines on
  which a marker can only stand at the start.\<close>

lemma pdf_from_cut:
  assumes "\<forall>l \<in> set ls. mid_free l \<and> 10 \<notin> set l" and "ls \<noteq> []"
    and "cut_before_markers (join_nl ls) = g # gs"
  shows "map unit_lines (pdf_from cur ls) =
           (if marker_at (join_nl ls)
            then (if title cur \<noteq> [] then [unit_lines cur] else []) @ map content_lines (g # gs)
            else if title cur \<noteq> [] then (unit_lines cur @ content_lines g) # map content_lines gs
            else map content_lines gs)"
  using assms
proof (induction ls arbitrary: cur g gs rule: join_nl.induct)
  case 1
  then show ?case by simp
next
  case (2 l)
  then have l: "mid_free l" "10 \<notin> set l" by simp_all
  from 2 l have g: "g = l" "gs = []" by (simp_all add: cut_last_line)
  have m: "marker_at (strip l) = marker_at l" using l by (simp add: marker_at_strip)
  show ?case
  proof (cases "marker_at l")
    case True
    then have "strip l \<noteq> []" by (rule marker_at_not_blank)
    with True m g l show ?thesis
      by (simp add: pdf_from_Cons pdf_from_Nil unit_lines_new content_lines_strip_line)
  next
    case False
    with m g l show ?thesis
      by (simp add: pdf_from_Cons pdf_from_Nil unit_lines_add_line content_lines_strip_line
          content_lines_blank)
  qed
next
  case (3 l l' ls)
  let ?rest = "join_nl (l' # ls)"
  from 3(2) have l: "mid_free l" "10 \<notin> set l" by simp_all
  obtain g' gs' where c: "cut_before_markers ?rest = g' # gs'"
    by (cases "cut_before_markers ?rest") simp_all
  have ih: "map unit_lines (pdf_from c' (l' # ls)) =
           (if marker_at ?rest
            then (if title c' \<noteq> [] then [unit_lines c'] else []) @ map content_lines (g' # gs')
            else if title c' \<noteq> [] then (unit_lines c' @ content_lines g') # map content_lines gs'
            else map content_lines gs')" for c'
    using 3(1)[OF _ _ c] 3(2) by simp
  have cut: "g # gs = (if marker_at ?rest then (l @ [10]) # g' # gs' else (l @ 10 # g') # gs')"
    using cut_line[OF l(1) c] 3(4) by simp
  have m: "marker_at (strip l) = marker_at l" using l by (simp add: marker_at_strip)
  have j: "marker_at (join_nl (l # l' # ls)) = marker_at l" by simp
  note step = pdf_from_Cons[of cur l "l' # ls"]
  show ?case
  proof (cases "marker_at l")
    case True
    then have nb: "strip l \<noteq> []" by (rule marker_at_not_blank)
    show ?thesis
    proof (cases "marker_at ?rest")
      case r: True
      with cut have "g = l @ [10]" "gs = g' # gs'" by simp_all
      with True m nb r l show ?thesis
        unfolding j step
        by (simp add: ih unit_lines_new content_lines_strip_line
            content_lines_snoc_nl del: join_nl.simps)
    next
      case r: False
      with cut have "g = l @ 10 # g'" "gs = gs'" by simp_all
      with True m nb r l show ?thesis
        unfolding j step
        by (simp add: ih unit_lines_new content_lines_strip_line
            content_lines_append del: join_nl.simps)
    qed
  next
    case False
    show ?thesis
    proof (cases "marker_at ?rest")
      case r: True
      with cut have "g = l @ [10]" "gs = g' # gs'" by simp_all
      with False m r l show ?thesis
        unfolding j step
        by (simp add: ih unit_lines_add_line content_lines_strip_line
            content_lines_snoc_nl content_lines_blank del: join_nl.simps)
    next
      case r: False
      with cut have "g = l @ 10 # g'" "gs = gs'" by simp_all
      with False m r l show ?thesis
        unfolding j step
        by (simp add: ih unit_lines_add_line content_lines_strip_line
            content_lines_append content_lines_blank del: join_nl.simps)
    qed
  qed
qed

lemma regex_split_units:
  "map content_lines (split_articles_by_regex (clean_pdf_text text)) =
     (if strip (front_matter (clean_pdf_text text)) = [] then []
      else [content_lines (front_matter (clean_pdf_text text))]) @
     map unit_lines (extract_articles_from_pdf text)"
proof -
  let ?t = "clean_pdf_text text"
  let ?ls = "split_nl ?t"
  obtain g gs where c: "cut_before_markers ?t = g # gs"
    by (cases "cut_before_markers ?t") simp_all
  have mf: "\<forall>l \<in> set ?ls. mid_free l \<and> 10 \<notin> set l"
    using nl_before_lines[OF nl_before_clean_pdf_text] split_nl_lines by blast
  have u: "map unit_lines (extract_articles_from_pdf text) =
             (if marker_at ?t then map content_lines (g # gs) else map content_lines gs)"
    using pdf_from_cut[OF mf, of g gs empty_article] c
    by (simp add: extract_articles_from_pdf_def segment_lines_pdf_from empty_article_def)
  have t: "filter (\<lambda>art. strip art \<noteq> []) gs = gs" using c by (rule cut_tail_not_blank)
  show ?thesis
  proof (cases "marker_at ?t")
    case True
    then have "strip g \<noteq> []" using c cut_head_not_blank by blast
    with True c t u show ?thesis
      by (simp add: split_articles_by_regex_def re_split_markers_def front_matter_def)
  next
    case False
    with c t u show ?thesis
      by (simp add: split_articles_by_regex_def re_split_markers_def front_matter_def)
  qed
qed

section \<open>The paragraph-oriented segmenter against the line-oriented one\<close>

lemma docx_step_acc:
  "docx_step (arts, cur) p = (arts @ fst (docx_step ([], cur) p), snd (docx_step ([], cur) p))"
  by (simp add: docx_step_def Let_def)

lemma docx_fold_acc:
  "flush (foldl docx_step (arts, cur) ps) = arts @ docx_from cur ps"
proof (induction ps arbitrary: arts cur)
  case Nil
  show ?case by (simp add: docx_from_def flush_def)
next
  case (Cons p ps)
  obtain e n where s: "docx_step ([], cur) p = (e, n)"
    by (cases "docx_step ([], cur) p") auto
  have "flush (foldl docx_step (arts, cur) (p # ps)) = flush (foldl docx_step (arts @ e, n) ps)"
    using docx_step_acc[of arts cur p] s by simp
  also have "\<dots> = (arts @ e) @ docx_from n ps" by (rule Cons.IH)
  also have "docx_from cur (p # ps) = e @ docx_from n ps"
    using Cons.IH[of e n] s by (simp add: docx_from_def)
  then have "(arts @ e) @ docx_from n ps = arts @ docx_from cur (p # ps)" by simp
  finally show ?case .
qed

lemma docx_from_Nil: "docx_from cur [] = (if title cur \<noteq> [] then [cur] else [])"
  by (simp add: docx_from_def flush_def)

lemma docx_from_Cons:
  "docx_from cur (p # ps) =
     (if strip p = [] then docx_from cur ps
      else if marker_at (strip p) then
        (if title cur \<noteq> [] then [cur] else []) @ docx_from (open_article (strip p)) ps
      else if title cur \<noteq> [] then docx_from (add_line (strip p) cur) ps
      else docx_from cur ps)"
proof -
  have "docx_from cur (p # ps) = flush (foldl docx_step (docx_step ([], cur) p) ps)"
    by (simp add: docx_from_def)
  then show ?thesis
    by (simp add: docx_step_def Let_def docx_fold_acc)
qed

lemma extract_docx_from: "extract_articles_from_docx ps = docx_from empty_article ps"
  by (simp add: extract_articles_from_docx_def docx_from_def)

text \<open>Both loops read only the non-empty trimmed texts.\<close>

lemma pdf_from_trimmed: "pdf_from cur (trimmed ls) = pdf_from cur ls"
proof (induction ls arbitrary: cur)
  case Nil
  show ?case by (simp add: trimmed_def)
next
  case (Cons l ls)
  have t: "trimmed (l # ls) = (if strip l = [] then trimmed ls else strip l # trimmed ls)"
    by (simp add: trimmed_def)
  show ?case
    unfolding t pdf_from_Cons[of cur l ls]
    by (simp add: pdf_from_Cons[of cur "strip l"] Cons.IH)
qed

lemma docx_from_trimmed: "docx_from cur (trimmed ps) = docx_from cur ps"
proof (induction ps arbitrary: cur)
  case Nil
  show ?case by (simp add: trimmed_def)
next
  case (Cons p ps)
  have t: "trimmed (p # ps) = (if strip p = [] then trimmed ps else strip p # trimmed ps)"
    by (simp add: trimmed_def)
  show ?case
    unfolding t docx_from_Cons[of cur p ps]
    by (simp add: docx_from_Cons[of cur "strip p"] Cons.IH)
qed

text \<open>What the second match of the paragraph-oriented loop yields on a marker line
  without a newline: the token, and the trimmed rest of the line.\<close>

lemma open_article_line:
  assumes "match_marker t = Some (m, r)" and "10 \<notin> set t"
  shows "open_article t = \<lparr>title = m, content = strip r\<rparr>"
proof -
  from assms(1) have "t = m @ r" by (rule match_marker_token(6))
  with assms(2) have "10 \<notin> set r" by simp
  then have n: "10 \<notin> set (dropWhile is_space r)" by (auto dest: set_dropWhileD)
  have tw: "takeWhile (\<lambda>c. c \<noteq> 10) x = x" if "10 \<notin> set x" for x :: ustring
    using that by (induction x) auto
  have "strip (dropWhile is_space r) = strip r"
    using strip_lstrip[of r] by (simp add: lstrip_def)
  then have "strip (takeWhile (\<lambda>c. c \<noteq> 10) (dropWhile is_space r)) = strip r"
    by (simp only: tw[OF n])
  then show ?thesis using assms(1) by (simp add: open_article_def)
qed

text \<open>Splitting the title commutes with the steps of the loops.\<close>

lemma split_title_titled: "title (split_title cur) = [] \<longleftrightarrow> title cur = []"
proof (cases "match_marker (title cur)")
  case None
  then show ?thesis by (simp add: split_title_def)
next
  case (Some p)
  obtain m r where p: "p = (m, r)" by (cases p) auto
  with Some have mm: "match_marker (title cur) = Some (m, r)" by simp
  note t = match_marker_token[OF mm]
  from t(1) t(6) have "title cur \<noteq> []" by auto
  with mm t(1) show ?thesis by (simp add: split_title_def)
qed

lemma split_title_new:
  assumes "marker_at line" and "10 \<notin> set line"
  shows "split_title \<lparr>title = line, content = []\<rparr> = open_article line"
proof -
  from assms(1) obtain m r where mm: "match_marker line = Some (m, r)"
    using marker_atD by blast
  from open_article_line[OF mm assms(2)] mm show ?thesis
    by (simp add: split_title_def join_content_def)
qed

lemma split_title_add_line:
  "line \<noteq> [] \<Longrightarrow> split_title (add_line line cur) = add_line line (split_title cur)"
  by (cases "match_marker (title cur)")
     (auto simp: split_title_def add_line_def join_content_def split: if_splits)

lemma docx_from_split_title:
  assumes "\<forall>l \<in> set ls. 10 \<notin> set l"
  shows "docx_from (split_title cur) ls = map split_title (pdf_from cur ls)"
  using assms
proof (induction ls arbitrary: cur)
  case Nil
  show ?case by (simp add: docx_from_Nil pdf_from_Nil split_title_titled)
next
  case (Cons l ls)
  then have n: "10 \<notin> set (strip l)" by (simp add: strip_no_nl)
  have ih: "docx_from (split_title c) ls = map split_title (pdf_from c ls)" for c
    using Cons by simp
  show ?case
    unfolding docx_from_Cons[of "split_title cur" l ls] pdf_from_Cons[of cur l ls]
    using n
    by (simp add: split_title_titled ih[symmetric] split_title_new split_title_add_line)
qed

lemma split_title_empty: "split_title empty_article = empty_article"
  by (simp add: split_title_def empty_article_def match_marker_def)

lemma docx_vs_pdf:
  assumes "trimmed paragraphs = content_lines (clean_pdf_text text)"
  shows "extract_articles_from_docx paragraphs = map split_title (extract_articles_from_pdf text)"
proof -
  let ?ls = "split_nl (clean_pdf_text text)"
  have e: "trimmed paragraphs = trimmed ?ls"
    using assms by (simp add: trimmed_def content_lines_def)
  have nl: "\<forall>l \<in> set ?ls. 10 \<notin> set l" using split_nl_lines by blast
  have "extract_articles_from_docx paragraphs = docx_from (split_title empty_article) (trimmed paragraphs)"
    by (simp add: extract_docx_from docx_from_trimmed split_title_empty)
  also have "\<dots> = docx_from (split_title empty_article) ?ls"
    unfolding e by (rule docx_from_trimmed)
  also have "\<dots> = map split_title (pdf_from empty_article ?ls)"
    using nl by (rule docx_from_split_title)
  finally show ?thesis
    by (simp add: extract_articles_from_pdf_def segment_lines_pdf_from)
qed

text \<open>A title that is the bare marker is left as it is.\<close>

lemma split_title_bare:
  assumes "match_marker (title u) = Some (title u, [])"
  shows "split_title u = u"
  using assms by (simp add: split_title_def join_content_def)

text \<open>The titles of the line-oriented units are the trimmed lines that start with a
  marker; the titles of the split units are the marker tokens.\<close>

lemma filter_marker_trimmed:
  assumes "\<forall>l \<in> set ls. mid_free l"
  shows "filter marker_at (trimmed ls) = map strip (filter marker_at ls)"
  using assms
proof (induction ls)
  case Nil
  show ?case by (simp add: trimmed_def)
next
  case (Cons l ls)
  then have m: "marker_at (strip l) = marker_at l" by (simp add: marker_at_strip)
  have t: "trimmed (l # ls) = (if strip l = [] then trimmed ls else strip l # trimmed ls)"
    by (simp add: trimmed_def)
  have ih: "filter marker_at (trimmed ls) = map strip (filter marker_at ls)"
    using Cons by simp
  show ?case
  proof (cases "marker_at l")
    case True
    then have "strip l \<noteq> []" by (rule marker_at_not_blank)
    with True m ih show ?thesis unfolding t by simp
  next
    case False
    with m ih show ?thesis unfolding t by simp
  qed
qed

lemma pdf_titles_lines:
  "map title (extract_articles_from_pdf text) =
     filter marker_at (content_lines (clean_pdf_text text))"
proof -
  let ?t = "clean_pdf_text text"
  have mf: "\<forall>l \<in> set (split_nl ?t). mid_free l"
    using nl_before_lines[OF nl_before_clean_pdf_text] by blast
  have "map title (extract_articles_from_pdf text) = map strip (filter marker_at (split_nl ?t))"
    using pdf_from_titles[OF mf, of empty_article]
    by (simp add: extract_articles_from_pdf_def segment_lines_pdf_from empty_article_def)
  also have "\<dots> = filter marker_at (trimmed (split_nl ?t))"
    using filter_marker_trimmed[OF mf] by simp
  finally show ?thesis by (simp add: content_lines_def trimmed_def)
qed

lemma title_split_title: "Some (title (split_title u)) = marker_token (title u) \<or> \<not> marker_at (title u)"
proof (cases "match_marker (title u)")
  case None
  then show ?thesis by (simp add: marker_at_def)
next
  case (Some p)
  obtain m r where p: "p = (m, r)" by (cases p) auto
  with Some show ?thesis by (simp add: split_title_def marker_token_def)
qed

lemma split_titles_markers:
  "map title (map split_title (extract_articles_from_pdf text)) = find_markers (clean_pdf_text text)"
proof -
  let ?us = "extract_articles_from_pdf text"
  have "\<forall>x \<in> set (map title ?us). marker_at x"
    unfolding pdf_titles_lines by simp
  then have ma: "\<forall>u \<in> set ?us. marker_at (title u)" by simp
  have "map (\<lambda>u. Some (title (split_title u))) ?us = map (\<lambda>u. marker_token (title u)) ?us"
    by (rule map_cong) (use ma title_split_title in auto)
  also have "\<dots> = map Some (find_markers (clean_pdf_text text))"
    by (rule pdf_units_markers)
  finally have "map Some (map title (map split_title ?us)) = map Some (find_markers (clean_pdf_text text))"
    by (simp add: comp_def)
  then show ?thesis by (simp only: inj_map_eq_map[OF inj_Some])
qed

section \<open>Normalizing a normalized text\<close>

text \<open>No carriage return is left.\<close>

lemma set_collapse_runs: "set (collapse_runs x s) \<subseteq> set s"
proof (induction x s rule: collapse_runs.induct)
  case (1 x)
  show ?case by simp
next
  case (2 x c cs)
  have "set (dropWhile (\<lambda>d. d = x) cs) \<subseteq> set cs" by (auto dest: set_dropWhileD)
  with 2 show ?case by auto
qed

lemma set_insert_newlines: "set (insert_newlines s) \<subseteq> insert 10 (set s)"
proof (induction s rule: insert_newlines.induct)
  case 1
  show ?case by simp
next
  case (2 c cs)
  show ?case
  proof (cases "match_marker (c # cs)")
    case None
    with 2 show ?thesis by auto
  next
    case (Some p)
    obtain m r where p: "p = (m, r)" by (cases p) auto
    with Some have "c # cs = m @ r" by (auto simp: match_marker_iff)
    then have "set m \<union> set r = set (c # cs)" by (metis set_append)
    moreover have "set (insert_newlines r) \<subseteq> insert 10 (set r)"
      using 2(2)[OF Some p[symmetric]] .
    ultimately show ?thesis using Some p by auto
  qed
qed

lemma set_strip: "set (strip s) \<subseteq> set s"
  using strip_decomp[of s] by (metis Un_upper1 Un_upper2 set_append subset_trans)

lemma no_cr_clean: "13 \<notin> set (clean_pdf_text text)"
proof -
  have "13 \<notin> set (replace_cr (replace_crlf text))"
    by (auto simp: replace_cr_def)
  then have "13 \<notin> set (collapse_runs 10 (collapse_runs 32 (replace_cr (replace_crlf text))))"
    using set_collapse_runs by blast
  then have "13 \<notin> set (insert_newlines
       (collapse_runs 10 (collapse_runs 32 (replace_cr (replace_crlf text)))))"
    using set_insert_newlines by fastforce
  then show ?thesis
    unfolding clean_pdf_text_def using set_strip by blast
qed

lemma replace_crlf_id: "13 \<notin> set s \<Longrightarrow> replace_crlf s = s"
  by (induction s rule: replace_crlf.induct) auto

lemma replace_cr_id: "13 \<notin> set s \<Longrightarrow> replace_cr s = s"
  unfolding replace_cr_def by (induction s) auto

text \<open>No run of spaces is left.\<close>

lemma no_double_Cons:
  "no_double x (c # s) = ((s = [] \<or> \<not> (c = x \<and> hd s = x)) \<and> no_double x s)"
  by (cases s) auto

lemma no_double_suffix: "no_double x (a @ b) \<Longrightarrow> no_double x b"
  by (induction a) (auto simp: no_double_Cons)

lemma no_double_prefix: "no_double x (a @ b) \<Longrightarrow> no_double x a"
proof (induction a)
  case Nil
  show ?case by simp
next
  case (Cons c a)
  then show ?case by (cases a) (auto simp: no_double_Cons)
qed

lemma collapse_runs_hd:
  "s \<noteq> [] \<Longrightarrow> collapse_runs x s \<noteq> [] \<and> hd (collapse_runs x s) = hd s"
  by (cases s) auto

lemma collapse_runs_Nil_iff [simp]: "collapse_runs x s = [] \<longleftrightarrow> s = []"
  by (cases s) auto

lemma dropWhile_hd: "dropWhile P s \<noteq> [] \<Longrightarrow> \<not> P (hd (dropWhile P s))"
  by (rule hd_dropWhile)

lemma no_double_collapse_same: "no_double x (collapse_runs x s)"
proof (induction x s rule: collapse_runs.induct)
  case (1 x)
  show ?case by simp
next
  case (2 x c cs)
  show ?case
  proof (cases "c = x")
    case True
    let ?d = "dropWhile (\<lambda>d. d = x) cs"
    have "?d = [] \<or> hd (collapse_runs x ?d) \<noteq> x"
    proof (cases "?d = []")
      case True
      then show ?thesis by simp
    next
      case False
      then have "hd ?d \<noteq> x" by (rule hd_dropWhile)
      moreover have "hd (collapse_runs x ?d) = hd ?d" using False collapse_runs_hd by blast
      ultimately show ?thesis by simp
    qed
    moreover have "no_double x (collapse_runs x ?d)" using True 2(1) by simp
    ultimately show ?thesis using True by (simp add: no_double_Cons)
  next
    case False
    with 2(2) show ?thesis by (auto simp: no_double_Cons)
  qed
qed

lemma no_double_collapse_other:
  "x \<noteq> y \<Longrightarrow> no_double x s \<Longrightarrow> no_double x (collapse_runs y s)"
proof (induction y s rule: collapse_runs.induct)
  case (1 y)
  show ?case by simp
next
  case (2 y c cs)
  show ?case
  proof (cases "c = y")
    case True
    let ?d = "dropWhile (\<lambda>d. d = y) cs"
    have "cs = takeWhile (\<lambda>d. d = y) cs @ ?d" by simp
    then have "no_double x ?d"
      using 2(4) no_double_suffix[of x "c # takeWhile (\<lambda>d. d = y) cs" ?d] by simp
    with True 2(1) 2(3) have "no_double x (collapse_runs y ?d)" by simp
    with True 2(3) show ?thesis by (auto simp: no_double_Cons)
  next
    case False
    from 2(4) have nd: "no_double x cs" and h: "cs = [] \<or> \<not> (c = x \<and> hd cs = x)"
      by (simp_all add: no_double_Cons)
    from False 2(2) 2(3) nd have "no_double x (collapse_runs y cs)" by simp
    moreover have "cs \<noteq> [] \<Longrightarrow> hd (collapse_runs y cs) = hd cs"
      using collapse_runs_hd by blast
    ultimately show ?thesis using False h by (auto simp: no_double_Cons)
  qed
qed

lemma no_double_append_free:
  "x \<notin> set m \<Longrightarrow> m \<noteq> [] \<Longrightarrow> no_double x (m @ y) = no_double x y"
proof (induction m)
  case Nil
  then show ?case by simp
next
  case (Cons c m)
  show ?case
  proof (cases m)
    case Nil
    with Cons.prems show ?thesis by (simp add: no_double_Cons)
  next
    case (Cons d m')
    with Cons.IH Cons.prems show ?thesis by (simp add: no_double_Cons)
  qed
qed

lemma insert_newlines_hd:
  "s \<noteq> [] \<Longrightarrow> insert_newlines s \<noteq> [] \<and>
     hd (insert_newlines s) = (if marker_at s then 10 else hd s)"
proof (cases s)
  case Nil
  assume "s \<noteq> []"
  with Nil show ?thesis by simp
next
  case (Cons c cs)
  show ?thesis
  proof (cases "match_marker (c # cs)")
    case None
    then have "\<not> marker_at (c # cs)" by (simp add: marker_at_def)
    with None Cons show ?thesis by simp
  next
    case (Some p)
    obtain m r where p: "p = (m, r)" by (cases p) auto
    from Some have "marker_at (c # cs)" by (rule marker_atI)
    with Some p Cons show ?thesis by simp
  qed
qed

lemma no_double_insert_newlines:
  "no_double 32 s \<Longrightarrow> no_double 32 (insert_newlines s)"
proof (induction s rule: insert_newlines.induct)
  case 1
  show ?case by simp
next
  case (2 c cs)
  show ?case
  proof (cases "match_marker (c # cs)")
    case None
    from 2(3) have nd: "no_double 32 cs" and h: "cs = [] \<or> \<not> (c = 32 \<and> hd cs = 32)"
      by (simp_all add: no_double_Cons)
    have i: "no_double 32 (insert_newlines cs)" using 2(1)[OF None nd] .
    have "insert_newlines cs = [] \<or> \<not> (c = 32 \<and> hd (insert_newlines cs) = 32)"
    proof (cases "cs = []")
      case True
      then show ?thesis by simp
    next
      case False
      with h have "\<not> (c = 32 \<and> hd cs = 32)" by simp
      moreover have "hd (insert_newlines cs) = (if marker_at cs then 10 else hd cs)"
        using False insert_newlines_hd by blast
      ultimately show ?thesis by (simp split: if_splits)
    qed
    with None i show ?thesis by (simp add: no_double_Cons)
  next
    case (Some p)
    obtain m r where p: "p = (m, r)" by (cases p) auto
    with Some have mm: "match_marker (c # cs) = Some (m, r)" by simp
    note t = match_marker_token[OF mm]
    from t(6) 2(3) have "no_double 32 r" using no_double_suffix by metis
    then have i: "no_double 32 (insert_newlines r)" using 2(2)[OF Some p[symmetric]] by simp
    have "32 \<notin> set m" using t(2) by auto
    then have "no_double 32 (m @ insert_newlines r)"
      using i t(1) by (simp add: no_double_append_free)
    then have "no_double 32 (10 # m @ insert_newlines r)"
      by (simp add: no_double_Cons)
    with mm show ?thesis by simp
  qed
qed

lemma no_double_strip: "no_double x s \<Longrightarrow> no_double x (strip s)"
proof -
  assume a: "no_double x s"
  obtain w q where "s = w @ strip s @ q" using strip_decomp by blast
  with a have "no_double x (strip s @ q)" by (metis no_double_suffix)
  then show ?thesis by (rule no_double_prefix)
qed

lemma no_double_space_clean: "no_double 32 (clean_pdf_text text)"
  unfolding clean_pdf_text_def
  by (intro no_double_strip no_double_insert_newlines no_double_collapse_other
      no_double_collapse_same) simp

lemma collapse_runs_id: "no_double x s \<Longrightarrow> collapse_runs x s = s"
proof (induction x s rule: collapse_runs.induct)
  case (1 x)
  show ?case by simp
next
  case (2 x c cs)
  from 2(3) have nd: "no_double x cs" and h: "cs = [] \<or> \<not> (c = x \<and> hd cs = x)"
    by (simp_all add: no_double_Cons)
  show ?case
  proof (cases "c = x")
    case True
    with h have "dropWhile (\<lambda>d. d = x) cs = cs" by (cases cs) auto
    with True 2(1) nd show ?thesis by simp
  next
    case False
    with 2(2) nd show ?thesis by simp
  qed
qed

text \<open>Stripping a text, collapsing its newlines and giving a newline to markers that
  stand at the start of a line change no non-empty trimmed line.\<close>

lemma content_lines_space_Cons: "is_space c \<Longrightarrow> content_lines (c # s) = content_lines s"
proof (cases "c = 10")
  case True
  then show ?thesis using content_lines_append[of "[]" s] by simp
next
  case False
  assume sp: "is_space c"
  obtain l ls where x: "split_nl s = l # ls" by (cases "split_nl s") simp_all
  with False sp show ?thesis
    by (simp add: content_lines_def strip_space_Cons)
qed

lemma content_lines_space_prefix:
  "\<forall>c \<in> set w. is_space c \<Longrightarrow> content_lines (w @ s) = content_lines s"
  by (induction w) (simp_all add: content_lines_space_Cons)

lemma split_nl_snoc:
  "c \<noteq> 10 \<Longrightarrow> split_nl (s @ [c]) = butlast (split_nl s) @ [last (split_nl s) @ [c]]"
proof (induction s)
  case Nil
  then show ?case by simp
next
  case (Cons d s)
  obtain l ls where x: "split_nl s = l # ls" by (cases "split_nl s") simp_all
  obtain l2 ls2 where y: "split_nl (s @ [c]) = l2 # ls2" by (cases "split_nl (s @ [c])") simp_all
  from Cons x y show ?case by (cases ls) auto
qed

lemma content_lines_space_snoc: "is_space c \<Longrightarrow> content_lines (s @ [c]) = content_lines s"
proof (cases "c = 10")
  case True
  then show ?thesis by (simp add: content_lines_snoc_nl)
next
  case False
  assume sp: "is_space c"
  have x: "split_nl s = butlast (split_nl s) @ [last (split_nl s)]" by simp
  have "split_nl (s @ [c]) = butlast (split_nl s) @ [last (split_nl s) @ [c]]"
    using False by (rule split_nl_snoc)
  then have "map strip (split_nl (s @ [c])) =
          map strip (butlast (split_nl s)) @ [strip (last (split_nl s) @ [c])]"
    by (simp only: map_append list.map)
  also have "\<dots> = map strip (butlast (split_nl s)) @ [strip (last (split_nl s))]"
    using sp by (simp only: strip_space_snoc)
  also have "\<dots> = map strip (butlast (split_nl s) @ [last (split_nl s)])"
    by (simp only: map_append list.map)
  also have "\<dots> = map strip (split_nl s)" using x by simp
  finally show ?thesis by (simp only: content_lines_def)
qed

lemma content_lines_space_suffix:
  "\<forall>c \<in> set q. is_space c \<Longrightarrow> content_lines (s @ q) = content_lines s"
proof (induction q rule: rev_induct)
  case Nil
  show ?case by simp
next
  case (snoc c q)
  then have "content_lines ((s @ q) @ [c]) = content_lines (s @ q)"
    by (intro content_lines_space_snoc) simp
  with snoc show ?case by simp
qed

lemma content_lines_strip: "content_lines (strip s) = content_lines s"
proof -
  obtain w q where d: "s = w @ strip s @ q" and w: "\<forall>c \<in> set w. is_space c"
    and q: "\<forall>c \<in> set q. is_space c"
    using strip_decomp by blast
  have "content_lines s = content_lines (w @ strip s @ q)" using d by simp
  also have "\<dots> = content_lines (strip s @ q)" using w by (rule content_lines_space_prefix)
  also have "\<dots> = content_lines (strip s)" using q by (rule content_lines_space_suffix)
  finally show ?thesis by simp
qed

lemma split_nl_dropWhile_nl:
  "filter (\<lambda>l. l \<noteq> []) (split_nl (dropWhile (\<lambda>d. d = 10) s)) = filter (\<lambda>l. l \<noteq> []) (split_nl s)"
  by (induction s) simp_all

lemma split_nl_collapse:
  "hd (split_nl (collapse_runs 10 s)) = hd (split_nl s) \<and>
   filter (\<lambda>l. l \<noteq> []) (tl (split_nl (collapse_runs 10 s))) =
     filter (\<lambda>l. l \<noteq> []) (tl (split_nl s))"
proof (induction "10 :: nat" s rule: collapse_runs.induct)
  case 1
  show ?case by simp
next
  case (2 c cs)
  show ?case
  proof (cases "c = 10")
    case True
    let ?d = "dropWhile (\<lambda>d. d = 10) cs"
    let ?z = "split_nl (collapse_runs 10 ?d)"
    have e: "filter (\<lambda>l. l \<noteq> []) xs =
               (if hd xs = [] then [] else [hd xs]) @ filter (\<lambda>l. l \<noteq> []) (tl xs)"
      if "xs \<noteq> []" for xs :: "ustring list"
      using that by (cases xs) simp_all
    have "filter (\<lambda>l. l \<noteq> []) ?z =
            (if hd ?z = [] then [] else [hd ?z]) @ filter (\<lambda>l. l \<noteq> []) (tl ?z)"
      by (rule e) simp
    also have "\<dots> = (if hd (split_nl ?d) = [] then [] else [hd (split_nl ?d)]) @
                     filter (\<lambda>l. l \<noteq> []) (tl (split_nl ?d))"
      using 2(1)[OF True] by presburger
    also have "\<dots> = filter (\<lambda>l. l \<noteq> []) (split_nl ?d)"
      by (rule e[symmetric]) simp
    also have "\<dots> = filter (\<lambda>l. l \<noteq> []) (split_nl cs)" by (rule split_nl_dropWhile_nl)
    finally have "filter (\<lambda>l. l \<noteq> []) ?z = filter (\<lambda>l. l \<noteq> []) (split_nl cs)" .
    then show ?thesis using True by simp
  next
    case False
    obtain l ls where x: "split_nl cs = l # ls" by (cases "split_nl cs") simp_all
    obtain l2 ls2 where y: "split_nl (collapse_runs 10 cs) = l2 # ls2"
      by (cases "split_nl (collapse_runs 10 cs)") simp_all
    from 2(2)[OF False] x y False show ?thesis by simp
  qed
qed

lemma nonempty_lines_collapse:
  "filter (\<lambda>l. l \<noteq> []) (split_nl (collapse_runs 10 s)) = filter (\<lambda>l. l \<noteq> []) (split_nl s)"
proof -
  have "split_nl (collapse_runs 10 s) =
          hd (split_nl (collapse_runs 10 s)) # tl (split_nl (collapse_runs 10 s))"
       "split_nl s = hd (split_nl s) # tl (split_nl s)"
    by simp_all
  then show ?thesis
    using split_nl_collapse[of s] by (metis filter.simps(2))
qed

lemma trimmed_nonempty: "trimmed (filter (\<lambda>l. l \<noteq> []) ls) = trimmed ls"
  by (induction ls) (simp_all add: trimmed_def)

lemma content_lines_trimmed: "content_lines s = trimmed (split_nl s)"
  by (simp add: content_lines_def trimmed_def)

lemma content_lines_collapse: "content_lines (collapse_runs 10 s) = content_lines s"
  unfolding content_lines_trimmed
  by (metis nonempty_lines_collapse trimmed_nonempty)

lemma lines_collapse: "l \<in> set (split_nl (collapse_runs 10 s)) \<Longrightarrow> l = [] \<or> l \<in> set (split_nl s)"
proof -
  assume a: "l \<in> set (split_nl (collapse_runs 10 s))"
  show ?thesis
  proof (cases "l = []")
    case True
    then show ?thesis by simp
  next
    case False
    with a have "l \<in> set (filter (\<lambda>l. l \<noteq> []) (split_nl (collapse_runs 10 s)))" by simp
    then have "l \<in> set (filter (\<lambda>l. l \<noteq> []) (split_nl s))"
      by (simp only: nonempty_lines_collapse)
    then show ?thesis by simp
  qed
qed

lemma insert_newlines_marker_free: "marker_free s \<Longrightarrow> insert_newlines s = s"
proof (induction s)
  case Nil
  show ?case by simp
next
  case (Cons c cs)
  then have "match_marker (c # cs) = None" "insert_newlines cs = cs"
    by (simp_all add: not_marker_atD)
  then show ?case by simp
qed

lemma insert_newlines_append_nl:
  "insert_newlines (l @ 10 # z) = insert_newlines l @ 10 # insert_newlines z"
proof (induction l rule: insert_newlines.induct)
  case 1
  have "match_marker (10 # z) = None" by (simp add: match_marker_def)
  then show ?case by simp
next
  case (2 c cs)
  show ?case
  proof (cases "match_marker (c # cs)")
    case None
    then have "match_marker ((c # cs) @ 10 # z) = None"
      by (simp only: match_marker_append_nl) simp
    with None 2(1) show ?thesis by simp
  next
    case (Some p)
    obtain m r where p: "p = (m, r)" by (cases p) auto
    have "match_marker ((c # cs) @ 10 # z) = Some (m, r @ 10 # z)"
      using Some p by (simp only: match_marker_append_nl) simp
    moreover have "insert_newlines (r @ 10 # z) = insert_newlines r @ 10 # insert_newlines z"
      using 2(2)[OF Some p[symmetric]] .
    ultimately show ?thesis using Some p by simp
  qed
qed

lemma insert_newlines_mid_free:
  assumes "mid_free l"
  shows "insert_newlines l = (if marker_at l then 10 # l else l)"
proof (cases l)
  case Nil
  then show ?thesis by simp
next
  case (Cons c cs)
  with assms have mf: "marker_free cs" by (simp add: mid_free_def)
  show ?thesis
  proof (cases "match_marker (c # cs)")
    case None
    then have "\<not> marker_at (c # cs)" by (simp add: marker_at_def)
    with None mf Cons show ?thesis by (simp add: insert_newlines_marker_free)
  next
    case (Some p)
    obtain m r where p: "p = (m, r)" by (cases p) auto
    with Some have e: "c # cs = m @ r" "m \<noteq> []" by (auto simp: match_marker_iff)
    then obtain m' where "cs = m' @ r" by (cases m) auto
    with mf have "marker_free r" using marker_free_suffix by blast
    then have "insert_newlines r = r" by (rule insert_newlines_marker_free)
    moreover from Some have ma: "marker_at (c # cs)" by (rule marker_atI)
    moreover have "insert_newlines (c # cs) = 10 # m @ insert_newlines r"
      using Some p by simp
    ultimately have "insert_newlines (c # cs) = 10 # c # cs" using e(1) by simp
    with ma Cons show ?thesis by simp
  qed
qed

lemma content_lines_insert_join:
  assumes "\<forall>l \<in> set ls. mid_free l"
  shows "content_lines (insert_newlines (join_nl ls)) = content_lines (join_nl ls)"
  using assms
proof (induction ls rule: join_nl.induct)
  case 1
  show ?case by simp
next
  case (2 l)
  then have "mid_free l" by simp
  then show ?case
    by (simp add: insert_newlines_mid_free content_lines_space_Cons)
next
  case (3 l l' ls)
  then have l: "mid_free l" by simp
  have a: "content_lines (insert_newlines l) = content_lines l"
    using l by (simp add: insert_newlines_mid_free content_lines_space_Cons)
  have b: "content_lines (insert_newlines (join_nl (l' # ls))) = content_lines (join_nl (l' # ls))"
    using 3 by simp
  have "join_nl (l # l' # ls) = l @ 10 # join_nl (l' # ls)" by simp
  then show ?case
    using a b by (simp only: insert_newlines_append_nl content_lines_append)
qed

lemma content_lines_insert:
  assumes "\<forall>l \<in> set (split_nl s). mid_free l"
  shows "content_lines (insert_newlines s) = content_lines s"
  using content_lines_insert_join[OF assms] by simp

lemma content_lines_clean_clean:
  "content_lines (clean_pdf_text (clean_pdf_text text)) = content_lines (clean_pdf_text text)"
proof -
  let ?t = "clean_pdf_text text"
  have a: "replace_cr (replace_crlf ?t) = ?t"
    using no_cr_clean by (simp add: replace_crlf_id replace_cr_id)
  have b: "collapse_runs 32 ?t = ?t"
    using no_double_space_clean by (rule collapse_runs_id)
  have c: "clean_pdf_text ?t = strip (insert_newlines (collapse_runs 10 ?t))"
    using a b by (simp add: clean_pdf_text_def[of ?t])
  have mf: "\<forall>l \<in> set (split_nl ?t). mid_free l"
    using nl_before_lines[OF nl_before_clean_pdf_text] by blast
  have mf': "\<forall>l \<in> set (split_nl (collapse_runs 10 ?t)). mid_free l"
    using mf lines_collapse by fastforce
  show ?thesis
    unfolding c
    by (simp add: content_lines_strip content_lines_insert[OF mf'] content_lines_collapse)
qed

lemma extract_articles_from_pdf_clean:
  "extract_articles_from_pdf (clean_pdf_text text) = extract_articles_from_pdf text"
proof -
  have "extract_articles_from_pdf s = pdf_from empty_article (content_lines (clean_pdf_text s))" for s
    by (simp add: extract_articles_from_pdf_def segment_lines_pdf_from content_lines_trimmed
        pdf_from_trimmed)
  then show ?thesis by (simp add: content_lines_clean_clean)
qed

section \<open>The claims about segmentation and normalization\<close>

lemmas eval_defs =
  extract_articles_from_docx_def extract_articles_from_pdf_def segment_lines_def flush_def
  docx_step_def pdf_step_def open_article_def add_line_def empty_article_def
  strip_def lstrip_def rstrip_def marker_at_def match_marker_def
  is_numeral_def is_decimal_def decimal_ranges_def is_space_def
  clean_pdf_text_def replace_cr_def split_articles_by_regex_def re_split_markers_def
  content_lines_def trimmed_def split_title_def join_content_def front_matter_def
  unit_lines_def unit_text_def Let_def

text \<open>
  C2: for every text, the normalized text holding k marker occurrences, the line-oriented
  segmenter yields exactly k units; every unit has a non-empty title; and the title of
  the i-th unit starts with the i-th marker of the normalized text. The function
  normalizes its input itself, and it yields the same units when it is given the
  normalized text.
\<close>

theorem segmentation_completeness:
  "length (extract_articles_from_pdf text) = length (find_markers (clean_pdf_text text)) \<and>
   list_all (\<lambda>u. title u \<noteq> []) (extract_articles_from_pdf text) \<and>
   map (\<lambda>u. marker_token (title u)) (extract_articles_from_pdf text) =
     map Some (find_markers (clean_pdf_text text)) \<and>
   extract_articles_from_pdf (clean_pdf_text text) = extract_articles_from_pdf text"
proof -
  have "length (map (\<lambda>u. marker_token (title u)) (extract_articles_from_pdf text)) =
          length (map Some (find_markers (clean_pdf_text text)))"
    by (simp only: pdf_units_markers)
  then have "length (extract_articles_from_pdf text) = length (find_markers (clean_pdf_text text))"
    by simp
  then show ?thesis
    using pdf_units_titled pdf_units_markers extract_articles_from_pdf_clean by blast
qed

text \<open>
  C3 (as stated): on equivalent input the two segmenters yield identical units. The
  one-line text of a marker, a space and the letter a has the same non-empty trimmed
  lines as a document of that one paragraph, and the units differ: the line-oriented
  segmenter keeps the whole line as title.
\<close>

theorem docx_pdf_identical_counterexample:
  "trimmed [[31532, 19968, 26465, 32, 97]] =
     content_lines (clean_pdf_text [31532, 19968, 26465, 32, 97]) \<and>
   extract_articles_from_docx [[31532, 19968, 26465, 32, 97]] \<noteq>
     extract_articles_from_pdf [31532, 19968, 26465, 32, 97]"
  by (simp add: eval_defs)

text \<open>
  C3 (amended): on equivalent input (the same sequence of non-empty trimmed lines) the
  two segmenters yield the same number of units, and the unit of the paragraph-oriented
  segmenter at each position is the unit of the line-oriented one with its title line
  split at the marker (\<open>split_title\<close>, stated from the marker pattern, not from the
  code): its title is the marker token and its content is the trimmed text after the
  token, followed by the content of the line-oriented unit. The titles of the
  line-oriented units are the whole trimmed lines that start with a marker, those of the
  paragraph-oriented units are the markers of the normalized text, and a unit whose
  title line is the bare marker is the same in both.
\<close>

theorem docx_splits_pdf_titles:
  "trimmed paragraphs = content_lines (clean_pdf_text text) \<Longrightarrow>
     extract_articles_from_docx paragraphs = map split_title (extract_articles_from_pdf text) \<and>
     length (extract_articles_from_docx paragraphs) = length (extract_articles_from_pdf text) \<and>
     map title (extract_articles_from_pdf text) =
       filter marker_at (content_lines (clean_pdf_text text)) \<and>
     map title (extract_articles_from_docx paragraphs) = find_markers (clean_pdf_text text) \<and>
     (match_marker (title u) = Some (m, r) \<longrightarrow>
        split_title u = \<lparr>title = m, content = join_content (strip r) (content u)\<rparr>) \<and>
     (match_marker (title u) = Some (title u, []) \<longrightarrow> split_title u = u)"
proof -
  assume h: "trimmed paragraphs = content_lines (clean_pdf_text text)"
  have a: "extract_articles_from_docx paragraphs = map split_title (extract_articles_from_pdf text)"
    using h by (rule docx_vs_pdf)
  have b: "map title (extract_articles_from_docx paragraphs) = find_markers (clean_pdf_text text)"
    unfolding a by (rule split_titles_markers)
  have c: "match_marker (title u) = Some (m, r) \<longrightarrow>
        split_title u = \<lparr>title = m, content = join_content (strip r) (content u)\<rparr>"
    by (simp add: split_title_def)
  show ?thesis
    using a b c pdf_titles_lines split_title_bare by simp
qed

theorem docx_splits_pdf_titles_witness:
  "trimmed [[31532, 19968, 26465, 32, 97], [98]] =
     content_lines (clean_pdf_text [31532, 19968, 26465, 32, 97, 10, 98]) \<and>
   extract_articles_from_pdf [31532, 19968, 26465, 32, 97, 10, 98] =
     [\<lparr>title = [31532, 19968, 26465, 32, 97], content = [98]\<rparr>] \<and>
   match_marker (title \<lparr>title = [31532, 19968, 26465, 32, 97], content = [98]\<rparr>) =
     Some ([31532, 19968, 26465], [32, 97]) \<and>
   extract_articles_from_docx [[31532, 19968, 26465, 32, 97], [98]] =
     map split_title (extract_articles_from_pdf [31532, 19968, 26465, 32, 97, 10, 98]) \<and>
   extract_articles_from_docx [[31532, 19968, 26465, 32, 97], [98]] =
     [\<lparr>title = [31532, 19968, 26465], content = [97, 10, 98]\<rparr>] \<and>
   map title (extract_articles_from_docx [[31532, 19968, 26465, 32, 97], [98]]) =
     find_markers (clean_pdf_text [31532, 19968, 26465, 32, 97, 10, 98]) \<and>
   split_title \<lparr>title = [31532, 19968, 26465, 32, 97], content = [98]\<rparr> =
     \<lparr>title = [31532, 19968, 26465], content = [97, 10, 98]\<rparr>"
proof -
  have h: "trimmed [[31532, 19968, 26465, 32, 97], [98]] =
     content_lines (clean_pdf_text [31532, 19968, 26465, 32, 97, 10, 98])"
    by (simp add: eval_defs)
  have p: "extract_articles_from_pdf [31532, 19968, 26465, 32, 97, 10, 98] =
     [\<lparr>title = [31532, 19968, 26465, 32, 97], content = [98]\<rparr>]"
    by (simp add: eval_defs)
  have m: "match_marker (title \<lparr>title = [31532, 19968, 26465, 32, 97], content = [98]\<rparr>) =
     Some ([31532, 19968, 26465], [32, 97])"
    by (simp add: eval_defs)
  have j: "join_content (strip [32, 97])
              (content \<lparr>title = [31532, 19968, 26465, 32, 97], content = [98]\<rparr>) = [97, 10, 98]"
    by (simp add: eval_defs)
  have e: "extract_articles_from_docx [[31532, 19968, 26465, 32, 97], [98]] =
     [\<lparr>title = [31532, 19968, 26465], content = [97, 10, 98]\<rparr>]"
    by (simp add: eval_defs)
  note t = docx_splits_pdf_titles[OF h,
      of "\<lparr>title = [31532, 19968, 26465, 32, 97], content = [98]\<rparr>"
         "[31532, 19968, 26465]" "[32, 97]"]
  from t have a: "extract_articles_from_docx [[31532, 19968, 26465, 32, 97], [98]] =
     map split_title (extract_articles_from_pdf [31532, 19968, 26465, 32, 97, 10, 98])"
    by (rule conjunct1)
  from t have f: "map title (extract_articles_from_docx [[31532, 19968, 26465, 32, 97], [98]]) =
     find_markers (clean_pdf_text [31532, 19968, 26465, 32, 97, 10, 98])"
    by blast
  from t m have "split_title \<lparr>title = [31532, 19968, 26465, 32, 97], content = [98]\<rparr> =
     \<lparr>title = [31532, 19968, 26465],
      content = join_content (strip [32, 97])
                  (content \<lparr>title = [31532, 19968, 26465, 32, 97], content = [98]\<rparr>)\<rparr>"
    by blast
  then have s: "split_title \<lparr>title = [31532, 19968, 26465, 32, 97], content = [98]\<rparr> =
     \<lparr>title = [31532, 19968, 26465], content = [97, 10, 98]\<rparr>"
    by (simp only: j)
  show ?thesis
    using h p m a e f s by blast
qed

text \<open>
  C4: the scenario of the specification. The three paragraphs of the text (a marker, a
  space and text; a marker, an ideographic space and text; a line of text) give two
  units: the titles are the bare marker tokens, the text after the marker opens the
  content, and the third line is appended after a newline.
\<close>

theorem docx_scenario:
  "extract_articles_from_docx
     (split_nl [31532, 19968, 26465, 32, 24635, 21017, 20869, 23481, 12290, 10,
                31532, 20108, 26465, 12288, 20998, 21017, 20869, 23481, 31532, 19968, 34892,
                12290, 10,
                20998, 21017, 20869, 23481, 31532, 20108, 34892, 12290]) =
   [\<lparr>title = [31532, 19968, 26465], content = [24635, 21017, 20869, 23481, 12290]\<rparr>,
    \<lparr>title = [31532, 20108, 26465],
     content = [20998, 21017, 20869, 23481, 31532, 19968, 34892, 12290, 10,
                20998, 21017, 20869, 23481, 31532, 20108, 34892, 12290]\<rparr>]"
  by (simp add: eval_defs)




text \<open>
  C5 (as stated): normalizing a normalized text changes nothing. The newline before a
  marker is inserted after the runs of newlines are collapsed, so the second pass adds a
  second newline before a marker that stood in the middle of a line.
\<close>

theorem clean_pdf_text_idempotent_counterexample:
  "clean_pdf_text (clean_pdf_text [97, 31532, 19968, 26465]) \<noteq>
   clean_pdf_text [97, 31532, 19968, 26465]"
  by (simp add: eval_defs)

text \<open>
  C5 (amended): normalizing a normalized text changes at most its blank lines: the
  text and its second normalization have the same non-empty trimmed lines, and the
  segmenter yields the same units from both.
\<close>

theorem clean_pdf_text_idempotent_lines:
  "content_lines (clean_pdf_text (clean_pdf_text text)) = content_lines (clean_pdf_text text) \<and>
   extract_articles_from_pdf (clean_pdf_text text) = extract_articles_from_pdf text"
proof -
  have a: "content_lines (clean_pdf_text (clean_pdf_text text)) =
             content_lines (clean_pdf_text text)"
    by (rule content_lines_clean_clean)
  show ?thesis
    using a extract_articles_from_pdf_clean by blast
qed

end
